theory Spec2Isabelle
  imports Complex_Main "HOL-Library.Sublist" "HOL-Library.Multiset"
begin

section \<open>Strings, characters and Python's string primitives\<close>

text \<open>
  The program under study is \<^verbatim>\<open>ghepvoice.py\<close>, a tool that lays voice clips on the
  time line of a subtitle file.  Python strings are modelled as \<^typ>\<open>string\<close>; a character
  stands for a code point below 256.  Python floats are modelled as \<^typ>\<open>real\<close>.  Where
  a value is only computed and returned, the arithmetic is exact, so that the statement
  is about the computation before binary rounding; where a float comparison decides what
  the program does next, as in the walk along the time line, the operands are rounded
  as Python rounds them.  Exceptions are values of \<open>py_error\<close>.
\<close>

datatype py_error = ValueError | ZeroDivisionError

text \<open>The class \<^verbatim>\<open>\d\<close> (restricted to code points below 256) and what \<^verbatim>\<open>int\<close> reads from it.\<close>

definition is_digit :: "char \<Rightarrow> bool" where
  "is_digit c = (c \<in> set ''0123456789'')"

definition digit_val :: "char \<Rightarrow> int" where
  "digit_val c = int (of_char c) - 48"

definition py_int :: "string \<Rightarrow> int" where
  "py_int s = foldl (\<lambda>a c. 10 * a + digit_val c) 0 s"

text \<open>
  The class \<^verbatim>\<open>\s\<close>, which is also what \<^verbatim>\<open>str.strip()\<close> removes: the code points
  below 256 for which \<^verbatim>\<open>str.isspace\<close> holds.
\<close>

definition is_space :: "char \<Rightarrow> bool" where
  "is_space c = ((of_char c :: nat) \<in> {9, 10, 11, 12, 13, 28, 29, 30, 31, 32, 133, 160})"

definition nl :: char where
  "nl = CHR 0x0A"

definition rstrip :: "string \<Rightarrow> string" where
  "rstrip s = rev (dropWhile is_space (rev s))"

definition strip :: "string \<Rightarrow> string" where
  "strip s = rstrip (dropWhile is_space s)"

text \<open>
  \<^verbatim>\<open>s.replace(old, new)\<close> for a pattern \<open>old\<close> of one character, which is the only way the
  program calls it.
\<close>

definition str_replace :: "char \<Rightarrow> string \<Rightarrow> string \<Rightarrow> string" where
  "str_replace old new s = concat (map (\<lambda>c. if c = old then new else [c]) s)"

section \<open>Backtracking regular expressions\<close>

text \<open>
  A pattern maps the text at the current position to the list of its possible matches, each
  a pair of the matched text and the text that remains, in the order in which Python's
  backtracking matcher tries them.  The match that \<^verbatim>\<open>re.match\<close> reports is the first
  element of the list for the whole pattern.
\<close>

type_synonym rx = "string \<Rightarrow> (string \<times> string) list"

definition rx_eps :: rx where
  "rx_eps s = [([], s)]"

definition rx_chr :: "(char \<Rightarrow> bool) \<Rightarrow> rx" where
  "rx_chr P s = (case s of [] \<Rightarrow> [] | c # cs \<Rightarrow> if P c then [([c], cs)] else [])"

definition rx_seq :: "rx \<Rightarrow> rx \<Rightarrow> rx" where
  "rx_seq p q s = [(a @ b, r'). (a, r) \<leftarrow> p s, (b, r') \<leftarrow> q r]"

fun rx_lit :: "string \<Rightarrow> rx" where
  "rx_lit [] = rx_eps"
| "rx_lit (c # cs) = rx_seq (rx_chr (\<lambda>x. x = c)) (rx_lit cs)"

text \<open>Greedy bounded repetition \<^verbatim>\<open>p{m,n}\<close>: the longer match is tried first.\<close>

fun rx_rep :: "nat \<Rightarrow> nat \<Rightarrow> rx \<Rightarrow> rx" where
  "rx_rep 0 0 p = rx_eps"
| "rx_rep 0 (Suc n) p = (\<lambda>s. rx_seq p (rx_rep 0 n p) s @ rx_eps s)"
| "rx_rep (Suc m) n p = rx_seq p (rx_rep m (n - 1) p)"

text \<open>Greedy \<^verbatim>\<open>c*\<close> and \<^verbatim>\<open>c+\<close> over a character class, and the lazy \<^verbatim>\<open>.*?\<close> under DOTALL.\<close>

fun rx_star :: "(char \<Rightarrow> bool) \<Rightarrow> rx" where
  "rx_star P [] = [([], [])]"
| "rx_star P (c # cs) =
     (if P c then map (\<lambda>(a, r). (c # a, r)) (rx_star P cs) @ [([], c # cs)]
      else [([], c # cs)])"

definition rx_plus :: "(char \<Rightarrow> bool) \<Rightarrow> rx" where
  "rx_plus P = rx_seq (rx_chr P) (rx_star P)"

fun rx_lazy_any :: rx where
  "rx_lazy_any [] = [([], [])]"
| "rx_lazy_any (c # cs) = ([], c # cs) # map (\<lambda>(a, r). (c # a, r)) (rx_lazy_any cs)"

definition re_match :: "'a list \<Rightarrow> 'a option" where
  "re_match xs = (case xs of [] \<Rightarrow> None | x # _ \<Rightarrow> Some x)"

section \<open>Time stamps: \<^verbatim>\<open>parse_srt_time\<close>\<close>

text \<open>
  \<^verbatim>\<open>(\d{1,2}):(\d{2}):(\d{2})\.(\d{3})\<close> with its four groups, and the fallback pattern
  \<^verbatim>\<open>(\d{1,2}):(\d{2}):(\d{2})\<close> with its three.
\<close>

definition re_time_frac :: "string \<Rightarrow> (string \<times> string \<times> string \<times> string) list" where
  "re_time_frac t =
     [(h, m, s, ms).
        (h, r1) \<leftarrow> rx_rep 1 2 (rx_chr is_digit) t,
        (c1, r2) \<leftarrow> rx_lit '':'' r1,
        (m, r3) \<leftarrow> rx_rep 2 2 (rx_chr is_digit) r2,
        (c2, r4) \<leftarrow> rx_lit '':'' r3,
        (s, r5) \<leftarrow> rx_rep 2 2 (rx_chr is_digit) r4,
        (c3, r6) \<leftarrow> rx_lit ''.'' r5,
        (ms, r7) \<leftarrow> rx_rep 3 3 (rx_chr is_digit) r6]"

definition re_time_plain :: "string \<Rightarrow> (string \<times> string \<times> string) list" where
  "re_time_plain t =
     [(h, m, s).
        (h, r1) \<leftarrow> rx_rep 1 2 (rx_chr is_digit) t,
        (c1, r2) \<leftarrow> rx_lit '':'' r1,
        (m, r3) \<leftarrow> rx_rep 2 2 (rx_chr is_digit) r2,
        (c2, r4) \<leftarrow> rx_lit '':'' r3,
        (s, r5) \<leftarrow> rx_rep 2 2 (rx_chr is_digit) r4]"

text \<open>
  The function itself.  The fallback branch returns a Python \<^verbatim>\<open>int\<close>, which compares equal
  to the float of the same value; both branches are reals here.
\<close>

definition parse_srt_time :: "string \<Rightarrow> py_error + real" where
  "parse_srt_time time_str =
     (let time_str = str_replace CHR '','' ''.'' (strip time_str) in
      case re_match (re_time_frac time_str) of
        None \<Rightarrow>
          (case re_match (re_time_plain time_str) of
             Some (h, m, s) \<Rightarrow> Inr (of_int (py_int h * 3600 + py_int m * 60 + py_int s))
           | None \<Rightarrow> Inl ValueError)
      | Some (h, m, s, ms) \<Rightarrow>
          Inr (of_int (py_int h) * 3600 + of_int (py_int m) * 60 + of_int (py_int s)
               + of_int (py_int ms) / 1000))"

text \<open>
  The two time-stamp forms in the words of the specification: \<open>H:MM:SS\<close> with one or two
  hour digits, optionally followed by a dot or a comma and three digits, at the start of
  the text.
\<close>

definition digits :: "nat \<Rightarrow> string \<Rightarrow> bool" where
  "digits n s = (length s = n \<and> list_all is_digit s)"

definition hours_field :: "string \<Rightarrow> bool" where
  "hours_field h = (list_all is_digit h \<and> (length h = 1 \<or> length h = 2))"

definition is_sep :: "char \<Rightarrow> bool" where
  "is_sep c = (c = CHR ''.'' \<or> c = CHR '','')"

definition matches_plain_pattern :: "string \<Rightarrow> bool" where
  "matches_plain_pattern t =
     (\<exists>h m s rest. hours_field h \<and> digits 2 m \<and> digits 2 s \<and>
        t = h @ '':'' @ m @ '':'' @ s @ rest)"

definition matches_fraction_pattern :: "string \<Rightarrow> bool" where
  "matches_fraction_pattern t =
     (\<exists>h m s sep ms rest. hours_field h \<and> digits 2 m \<and> digits 2 s \<and> is_sep sep \<and> digits 3 ms \<and>
        t = h @ '':'' @ m @ '':'' @ s @ [sep] @ ms @ rest)"

definition fraction_follows :: "string \<Rightarrow> bool" where
  "fraction_follows rest =
     (case rest of c # x # y # z # _ \<Rightarrow> is_sep c \<and> is_digit x \<and> is_digit y \<and> is_digit z
      | _ \<Rightarrow> False)"

definition comma_to_dot :: "char \<Rightarrow> char" where
  "comma_to_dot c = (if c = CHR '','' then CHR ''.'' else c)"

definition frac_tail :: "string \<Rightarrow> string list" where
  "frac_tail r5 = [ms. (c3, r6) \<leftarrow> rx_lit ''.'' r5, (ms, r7) \<leftarrow> rx_rep 3 3 (rx_chr is_digit) r6]"

section \<open>Cues and matches\<close>

text \<open>The two data classes of the program.\<close>

record SubtitleLine =
  index :: int
  start_time :: real
  end_time :: real
  duration :: real
  text' :: string

record AudioMatch =
  subtitle :: SubtitleLine
  audio_path :: string
  audio_duration :: real
  needs_speedup :: bool
  speed_factor :: real
  processed_path :: "string option"

text \<open>
  The decision that \<^verbatim>\<open>_sync_thread\<close> takes for a cue whose clip was found and measured:
  \<^verbatim>\<open>needs_speedup = audio_duration > sub.duration\<close>, then
  \<^verbatim>\<open>speed_factor = audio_duration / sub.duration if needs_speedup else 1.0\<close>, then the
  \<^verbatim>\<open>AudioMatch\<close> is built.  Python's float division raises on a zero divisor.
\<close>

definition make_audio_match :: "SubtitleLine \<Rightarrow> string \<Rightarrow> real \<Rightarrow> py_error + AudioMatch" where
  "make_audio_match sub path dur =
     (let needs = (dur > duration sub) in
      if needs \<and> duration sub = 0 then Inl ZeroDivisionError
      else Inr \<lparr> subtitle = sub, audio_path = path, audio_duration = dur,
                 needs_speedup = needs,
                 speed_factor = (if needs then dur / duration sub else 1),
                 processed_path = None \<rparr>)"

text \<open>A cue whose end lies before its start, as the line \<open>00:00:02,000 --> 00:00:01,000\<close> gives.\<close>

definition cue_backwards :: SubtitleLine where
  "cue_backwards = \<lparr> index = 1, start_time = 2, end_time = 1, duration = - 1, text' = ''x'' \<rparr>"

section \<open>The chain of tempo filters in \<^verbatim>\<open>process_audio_speed\<close>\<close>

subsection \<open>Decimal output\<close>

definition digit_char :: "nat \<Rightarrow> char" where
  "digit_char d = ''0123456789'' ! d"

fun str_nat :: "nat \<Rightarrow> string" where
  "str_nat n = (if n < 10 then [digit_char n] else str_nat (n div 10) @ [digit_char (n mod 10)])"

text \<open>\<^verbatim>\<open>str(i)\<close> for an integer, and \<^verbatim>\<open>s.zfill(w)\<close>, which pads after a sign.\<close>

definition str_int :: "int \<Rightarrow> string" where
  "str_int i = (if i < 0 then ''-'' @ str_nat (nat (- i)) else str_nat (nat i))"

definition zfill :: "nat \<Rightarrow> string \<Rightarrow> string" where
  "zfill w s =
     (case s of
        [] \<Rightarrow> replicate w CHR ''0''
      | c # cs \<Rightarrow>
          if c = CHR ''+'' \<or> c = CHR ''-'' then c # replicate (w - length s) CHR ''0'' @ cs
          else replicate (w - length s) CHR ''0'' @ s)"

text \<open>
  The format \<^verbatim>\<open>{x:.6f}\<close>: the value is rounded to a multiple of \<open>10\<^sup>-\<^sup>6\<close>, a tie going
  to the even neighbour, and printed with six places.
\<close>

definition round_half_even :: "real \<Rightarrow> int" where
  "round_half_even x =
     (let f = \<lfloor>x\<rfloor>; d = x - of_int f in
      if d < 1 / 2 then f else if d > 1 / 2 then f + 1 else if even f then f else f + 1)"

definition format_6f :: "real \<Rightarrow> string" where
  "format_6f x =
     (let n = nat (round_half_even (\<bar>x\<bar> * 10 ^ 6)) in
      (if x < 0 then ''-'' else '''') @ str_nat (n div 10 ^ 6) @ ''.'' @ zfill 6 (str_nat (n mod 10 ^ 6)))"

definition round_6f :: "real \<Rightarrow> real" where
  "round_6f x = of_int (round_half_even (x * 10 ^ 6)) / 10 ^ 6"

subsection \<open>The two loops\<close>

text \<open>
  \<^verbatim>\<open>while speed > 2.0: atempo_filters.append("atempo=2.0"); speed /= 2.0\<close> always ends on
  a real number.
\<close>

function fast_loop :: "real \<Rightarrow> string list \<Rightarrow> real \<times> string list" where
  "fast_loop speed atempo_filters =
     (if speed > 2 then fast_loop (speed / 2) (atempo_filters @ [''atempo=2.0''])
      else (speed, atempo_filters))"
  by pat_completeness auto
termination
proof (relation "measure (\<lambda>(speed, fs). nat \<lceil>speed\<rceil>)")
  show "wf (measure (\<lambda>(speed, fs). nat \<lceil>speed\<rceil>))" by simp
next
  fix speed :: real and atempo_filters :: "string list"
  assume gt: "2 < speed"
  have "speed \<le> of_int \<lceil>speed\<rceil>" by (rule le_of_int_ceiling)
  with gt have "speed / 2 \<le> of_int \<lceil>speed\<rceil> - 1" by linarith
  then have "speed / 2 \<le> of_int (\<lceil>speed\<rceil> - 1)" by simp
  then have "\<lceil>speed / 2\<rceil> \<le> \<lceil>speed\<rceil> - 1" by (simp only: ceiling_le_iff)
  moreover from gt have "0 < \<lceil>speed\<rceil>" by (simp add: zero_less_ceiling)
  ultimately show "((speed / 2, atempo_filters @ [''atempo=2.0'']), (speed, atempo_filters))
               \<in> measure (\<lambda>(speed, fs). nat \<lceil>speed\<rceil>)"
    by simp
qed

declare fast_loop.simps [simp del]

text \<open>
  \<^verbatim>\<open>while speed < 0.5: atempo_filters.append("atempo=0.5"); speed /= 0.5\<close> does not end
  when \<open>speed \<le> 0\<close>; not returning is the value \<open>None\<close>.
\<close>

partial_function (option) slow_loop :: "real \<Rightarrow> string list \<Rightarrow> (real \<times> string list) option" where
  "slow_loop speed atempo_filters =
     (if speed < 1 / 2 then slow_loop (speed / (1 / 2)) (atempo_filters @ [''atempo=0.5''])
      else Some (speed, atempo_filters))"

declare slow_loop.simps [code]

definition atempo_chain :: "real \<Rightarrow> string list option" where
  "atempo_chain speed_factor0 =
     (case fast_loop speed_factor0 [] of (speed, atempo_filters) \<Rightarrow>
        (case slow_loop speed atempo_filters of
           None \<Rightarrow> None
         | Some (speed', atempo_filters') \<Rightarrow>
             Some (atempo_filters' @ [''atempo='' @ format_6f speed'])))"

text \<open>\<^verbatim>\<open>",".join(atempo_filters)\<close>.\<close>

fun str_join :: "string \<Rightarrow> string list \<Rightarrow> string" where
  "str_join sep [] = []"
| "str_join sep [x] = x"
| "str_join sep (x # y # ys) = x @ sep @ str_join sep (y # ys)"

definition filter_str :: "real \<Rightarrow> string option" where
  "filter_str speed_factor0 = map_option (str_join '','') (atempo_chain speed_factor0)"

subsection \<open>The ratio that a stage denotes\<close>

text \<open>
  The filter engine reads the decimal number after \<^verbatim>\<open>atempo=\<close>.  The reader below gives a
  stage text its numeric meaning: digits, a dot, digits.
\<close>

definition read_decimal :: "string \<Rightarrow> real" where
  "read_decimal s =
     (let ip = takeWhile (\<lambda>c. c \<noteq> CHR ''.'') s; fp = drop 1 (dropWhile (\<lambda>c. c \<noteq> CHR ''.'') s)
      in of_int (py_int ip) + of_int (py_int fp) / 10 ^ length fp)"

definition stage_ratio :: "string \<Rightarrow> real" where
  "stage_ratio stage = read_decimal (drop (length ''atempo='') stage)"

section \<open>Binary floating point\<close>

text \<open>
  Where a comparison of the program decides which way it goes, the rounding of Python's
  floats is part of the model.  A float is a real number with a significand of 53 bits;
  \<open>binary64\<close> rounds a real number to the nearest such number, a tie going to the even
  significand, as every arithmetic operation and every literal of Python does.  The
  range of the exponent is not limited here: overflow, subnormal numbers, infinities and
  NaN are left out.  A field of a record that holds a float in the program holds a real
  number here, which stands for the float nearest to it; a float operation rounds the
  fields it reads, which changes nothing for a field that is a float already, and rounds
  its result.
\<close>

function float_exponent :: "real \<Rightarrow> int" where
  "float_exponent x =
     (if x = 0 then 0
      else if 2 \<le> \<bar>x\<bar> then float_exponent (x / 2) + 1
      else if \<bar>x\<bar> < 1 then float_exponent (x * 2) - 1
      else 0)"
  by pat_completeness auto
termination
proof (relation "measure (\<lambda>x. nat \<lceil>\<bar>x\<bar>\<rceil> + 2 * nat \<lceil>1 / \<bar>x\<bar>\<rceil>)")
  show "wf (measure (\<lambda>x. nat \<lceil>\<bar>x\<bar>\<rceil> + 2 * nat \<lceil>1 / \<bar>x\<bar>\<rceil>))" by simp
next
  fix x :: real
  assume "x \<noteq> 0" and big: "2 \<le> \<bar>x\<bar>"
  have "\<bar>x\<bar> \<le> of_int \<lceil>\<bar>x\<bar>\<rceil>" by (rule le_of_int_ceiling)
  with big have "\<bar>x\<bar> / 2 \<le> of_int \<lceil>\<bar>x\<bar>\<rceil> - 1" by linarith
  then have "\<bar>x\<bar> / 2 \<le> of_int (\<lceil>\<bar>x\<bar>\<rceil> - 1)" by simp
  then have 1: "\<lceil>\<bar>x\<bar> / 2\<rceil> \<le> \<lceil>\<bar>x\<bar>\<rceil> - 1" by (simp only: ceiling_le_iff)
  from big have 2: "0 < \<lceil>\<bar>x\<bar>\<rceil>" by (simp add: zero_less_ceiling)
  from big have "0 < 1 / \<bar>x\<bar>" "1 / \<bar>x\<bar> \<le> 1" "0 < 2 / \<bar>x\<bar>" "2 / \<bar>x\<bar> \<le> 1"
    by (simp_all add: field_simps)
  then have 3: "\<lceil>1 / \<bar>x\<bar>\<rceil> = 1" "\<lceil>2 / \<bar>x\<bar>\<rceil> = 1"
    by (simp_all add: ceiling_eq_iff)
  have "\<bar>x / 2\<bar> = \<bar>x\<bar> / 2" "1 / \<bar>x / 2\<bar> = 2 / \<bar>x\<bar>" by simp_all
  with 1 2 3 show "(x / 2, x) \<in> measure (\<lambda>x. nat \<lceil>\<bar>x\<bar>\<rceil> + 2 * nat \<lceil>1 / \<bar>x\<bar>\<rceil>)"
    by simp
next
  fix x :: real
  assume nz: "x \<noteq> 0" and "\<not> 2 \<le> \<bar>x\<bar>" and small: "\<bar>x\<bar> < 1"
  from nz have pos: "0 < \<bar>x\<bar>" by simp
  with small have a: "\<lceil>\<bar>x\<bar>\<rceil> = 1" by (simp add: ceiling_eq_iff)
  from small have "\<bar>x\<bar> * 2 \<le> of_int 2" by simp
  then have b: "\<lceil>\<bar>x\<bar> * 2\<rceil> \<le> 2" by (simp only: ceiling_le_iff)
  from pos have b0: "0 < \<lceil>\<bar>x\<bar> * 2\<rceil>" by (simp add: zero_less_ceiling)
  from pos small have y: "1 < 1 / \<bar>x\<bar>" by (simp add: field_simps)
  have "1 / \<bar>x\<bar> \<le> of_int \<lceil>1 / \<bar>x\<bar>\<rceil>" by (rule le_of_int_ceiling)
  with y have c2: "2 \<le> \<lceil>1 / \<bar>x\<bar>\<rceil>" by linarith
  have "1 / \<bar>x\<bar> \<le> of_int \<lceil>1 / \<bar>x\<bar>\<rceil>" by (rule le_of_int_ceiling)
  then have "1 / \<bar>x\<bar> / 2 \<le> of_int \<lceil>1 / \<bar>x\<bar>\<rceil> / 2" by simp
  also from c2 have "\<dots> \<le> of_int \<lceil>1 / \<bar>x\<bar>\<rceil> - 1" by linarith
  also have "\<dots> = of_int (\<lceil>1 / \<bar>x\<bar>\<rceil> - 1)" by simp
  finally have c: "\<lceil>1 / \<bar>x\<bar> / 2\<rceil> \<le> \<lceil>1 / \<bar>x\<bar>\<rceil> - 1" by (simp only: ceiling_le_iff)
  from nz have c0: "0 < \<lceil>1 / \<bar>x\<bar> / 2\<rceil>" by (simp add: zero_less_ceiling)
  have e: "\<bar>x * 2\<bar> = \<bar>x\<bar> * 2" "1 / (\<bar>x\<bar> * 2) = 1 / \<bar>x\<bar> / 2" by simp_all
  from a b b0 c c0 c2 show "(x * 2, x) \<in> measure (\<lambda>x. nat \<lceil>\<bar>x\<bar>\<rceil> + 2 * nat \<lceil>1 / \<bar>x\<bar>\<rceil>)"
    unfolding in_measure e by linarith
qed

declare float_exponent.simps [simp del]

definition pow2 :: "int \<Rightarrow> real" where
  "pow2 e = (if 0 \<le> e then 2 ^ nat e else 1 / 2 ^ nat (- e))"

definition binary64 :: "real \<Rightarrow> real" where
  "binary64 x =
     (let ulp = pow2 (float_exponent x - 52)
      in of_int (round_half_even (x / ulp)) * ulp)"

section \<open>The time line: \<^verbatim>\<open>create_timeline\<close>\<close>

text \<open>\<^verbatim>\<open>os.path.join\<close> for two components, in its POSIX form.\<close>

definition path_join :: "string \<Rightarrow> string \<Rightarrow> string" where
  "path_join a b =
     (if b \<noteq> [] \<and> hd b = CHR ''/'' then b
      else if a = [] \<or> last a = CHR ''/'' then a @ b
      else a @ ''/'' @ b)"

text \<open>
  The state of the loop: the segment files collected so far, the calls of
  \<^verbatim>\<open>generate_silence\<close> made so far (duration and output path; the call writes a silent
  file of that duration to that path), and \<^verbatim>\<open>current_time\<close>.
\<close>

record timeline_state =
  segment_files :: "string list"
  silence_jobs :: "(real \<times> string) list"
  current_time :: real

definition silence_name :: "nat \<Rightarrow> string" where
  "silence_name i = ''silence_'' @ zfill 4 (str_nat i) @ ''_before.wav''"

text \<open>
  One pass through the loop body, for the match at position \<open>i\<close> of the sorted list.
  The gap is a float subtraction and is compared with the float that the literal
  \<^verbatim>\<open>0.01\<close> denotes.
\<close>

definition timeline_step :: "string \<Rightarrow> timeline_state \<Rightarrow> nat \<times> AudioMatch \<Rightarrow> timeline_state" where
  "timeline_step temp_dir st im =
     (case im of (i, match) \<Rightarrow>
        let gap_before = binary64 (binary64 (start_time (subtitle match)) - binary64 (current_time st));
            st1 = (if gap_before > binary64 0.01
                   then let silence_path = path_join temp_dir (silence_name i)
                        in st\<lparr> silence_jobs := silence_jobs st @ [(gap_before, silence_path)],
                               segment_files := segment_files st @ [silence_path] \<rparr>
                   else st);
            st2 = (case processed_path match of
                     None \<Rightarrow> st1
                   | Some p \<Rightarrow> if p \<noteq> [] then st1\<lparr> segment_files := segment_files st1 @ [p] \<rparr> else st1)
        in st2\<lparr> current_time := end_time (subtitle match) \<rparr>)"

definition timeline_walk :: "string \<Rightarrow> AudioMatch list \<Rightarrow> timeline_state" where
  "timeline_walk temp_dir matches =
     foldl (timeline_step temp_dir)
       \<lparr> segment_files = [], silence_jobs = [], current_time = 0 \<rparr>
       (enumerate 0 matches)"

text \<open>
  The manifest for the concatenation: \<^verbatim>\<open>seg_file.replace("'", "'\\''")\<close> and one
  \<^verbatim>\<open>f.write\<close> per segment file.
\<close>

definition quote :: char where
  "quote = CHR 0x27"

definition backslash :: char where
  "backslash = CHR 0x5C"

definition write_segment :: "string \<Rightarrow> string \<Rightarrow> string" where
  "write_segment f seg_file =
     (let escaped_path = str_replace quote [quote, backslash, quote, quote] seg_file
      in f @ ''file '' @ [quote] @ escaped_path @ [quote] @ [nl])"

definition concat_list :: "string list \<Rightarrow> string" where
  "concat_list segs = foldl write_segment [] segs"

text \<open>
  The function: the sort, the walk, the manifest and the command line of the
  concatenation.  Its result here is everything it hands to the outside world.
\<close>

record timeline_result =
  silences :: "(real \<times> string) list"
  segments :: "string list"
  manifest :: string
  cmd :: "string list"

definition sort_matches :: "AudioMatch list \<Rightarrow> AudioMatch list" where
  "sort_matches matches = sort_key (\<lambda>x. binary64 (start_time (subtitle x))) matches"

definition create_timeline :: "AudioMatch list \<Rightarrow> string \<Rightarrow> string \<Rightarrow> string \<Rightarrow> timeline_result" where
  "create_timeline matches output_path temp_dir ffmpeg_path =
     (let st = timeline_walk temp_dir (sort_matches matches);
          list_path = path_join temp_dir ''concat_list.txt''
      in \<lparr> silences = silence_jobs st,
           segments = segment_files st,
           manifest = concat_list (segment_files st),
           cmd = [ffmpeg_path, ''-y'', ''-f'', ''concat'', ''-safe'', ''0'', ''-i'', list_path,
                  ''-acodec'', ''pcm_s16le'', ''-ar'', ''24000'', ''-ac'', ''1'', output_path] \<rparr>)"

text \<open>
  What the specification calls the time before a match: \<open>0\<close> for the first match of the
  sorted list, the end of the previous cue for every other one.  The gap before a match
  is counted from there, by a float subtraction.
\<close>

definition time_before :: "AudioMatch list \<Rightarrow> nat \<Rightarrow> real" where
  "time_before ms i = (if i = 0 then 0 else end_time (subtitle (ms ! (i - 1))))"

definition gap_at :: "AudioMatch list \<Rightarrow> nat \<Rightarrow> real" where
  "gap_at ms i = binary64 (binary64 (start_time (subtitle (ms ! i))) - binary64 (time_before ms i))"

definition clip_of :: "AudioMatch \<Rightarrow> string list" where
  "clip_of m = (case processed_path m of None \<Rightarrow> [] | Some p \<Rightarrow> if p \<noteq> [] then [p] else [])"

text \<open>A processed clip that fills the cue from \<open>a\<close> to \<open>b\<close> exactly.\<close>

definition fitting_clip :: "int \<Rightarrow> real \<Rightarrow> real \<Rightarrow> string \<Rightarrow> AudioMatch" where
  "fitting_clip i a b p =
     \<lparr> subtitle = \<lparr> index = i, start_time = a, end_time = b, duration = b - a, text' = '''' \<rparr>,
       audio_path = p, audio_duration = b - a, needs_speedup = False, speed_factor = 1,
       processed_path = Some p \<rparr>"

text \<open>The lines of a text, each ended by a line feed.\<close>

fun split_lines :: "string \<Rightarrow> string list" where
  "split_lines [] = []"
| "split_lines (c # cs) =
     (if c = nl then [] # split_lines cs
      else (case split_lines cs of [] \<Rightarrow> [c] # [] | l # ls \<Rightarrow> (c # l) # ls))"

text \<open>
  The segments and the silence jobs that the match at position \<open>i\<close> contributes
  according to the specification: a silence of the length of the gap when the gap
  exceeds \<open>0.01\<close>, then the processed clip.  \<open>emitted_at\<close> is the same with the
  guard of the program, \<^verbatim>\<open>if match.processed_path\<close>, around the clip.
\<close>

definition silences_at :: "string \<Rightarrow> AudioMatch list \<Rightarrow> nat \<Rightarrow> (real \<times> string) list" where
  "silences_at temp_dir ms i =
     (if gap_at ms i > binary64 0.01
      then [(gap_at ms i, path_join temp_dir (silence_name i))] else [])"

definition processed_clip :: "AudioMatch \<Rightarrow> string" where
  "processed_clip m = (case processed_path m of None \<Rightarrow> [] | Some p \<Rightarrow> p)"

definition segments_at :: "string \<Rightarrow> AudioMatch list \<Rightarrow> nat \<Rightarrow> string list" where
  "segments_at temp_dir ms i = map snd (silences_at temp_dir ms i) @ [processed_clip (ms ! i)]"

definition emitted_at :: "string \<Rightarrow> AudioMatch list \<Rightarrow> nat \<Rightarrow> string list" where
  "emitted_at temp_dir ms i = map snd (silences_at temp_dir ms i) @ clip_of (ms ! i)"

text \<open>
  A match is processed when \<^verbatim>\<open>process_audio_speed\<close> has stored the path of its
  output in it; the function is called on every match before the time line is made.
\<close>

definition processed :: "AudioMatch \<Rightarrow> bool" where
  "processed m = (case processed_path m of None \<Rightarrow> False | Some p \<Rightarrow> p \<noteq> [])"

definition escape_char :: "char \<Rightarrow> string" where
  "escape_char c = (if c = quote then [quote, backslash, quote, quote] else [c])"

definition manifest_line :: "string \<Rightarrow> string" where
  "manifest_line p = ''file '' @ [quote] @ concat (map escape_char p) @ [quote]"

section \<open>Finding the clip of a cue: \<^verbatim>\<open>find_audio_for_subtitle\<close>\<close>

subsection \<open>Paths and names\<close>

text \<open>
  \<^verbatim>\<open>os.path.splitext\<close> in its POSIX form: the extension starts at the last dot of the last
  path component, unless only dots precede that dot in the component.
\<close>

definition basename_of :: "string \<Rightarrow> string" where
  "basename_of p = rev (takeWhile (\<lambda>c. c \<noteq> CHR ''/'') (rev p))"

definition splitext :: "string \<Rightarrow> string \<times> string" where
  "splitext p =
     (let name = basename_of p;
          ext = CHR ''.'' # rev (takeWhile (\<lambda>c. c \<noteq> CHR ''.'') (rev name));
          stem = take (length name - length ext) name
      in if CHR ''.'' \<in> set name \<and> (\<exists>c \<in> set stem. c \<noteq> CHR ''.'')
         then (take (length p - length ext) p, ext)
         else (p, []))"

text \<open>
  \<^verbatim>\<open>str.lower\<close> and \<^verbatim>\<open>str.upper\<close> on the letters of the ASCII alphabet.  The other
  letters below code point 256 are left alone: no extension of the lists below contains
  one, before or after a change of case.
\<close>

definition lower_char :: "char \<Rightarrow> char" where
  "lower_char c =
     (case map_of (zip ''ABCDEFGHIJKLMNOPQRSTUVWXYZ'' ''abcdefghijklmnopqrstuvwxyz'') c of
        None \<Rightarrow> c | Some d \<Rightarrow> d)"

definition upper_char :: "char \<Rightarrow> char" where
  "upper_char c =
     (case map_of (zip ''abcdefghijklmnopqrstuvwxyz'' ''ABCDEFGHIJKLMNOPQRSTUVWXYZ'') c of
        None \<Rightarrow> c | Some d \<Rightarrow> d)"

definition audio_extensions :: "string list" where
  "audio_extensions =
     [''.wav'', ''.mp3'', ''.m4a'', ''.aac'', ''.flac'', ''.ogg'',
      ''.wma'', ''.opus'', ''.webm'', ''.amr'', ''.3gp'', ''.ape'',
      ''.alac'', ''.aiff'', ''.aif'', ''.au'', ''.ra'', ''.mid'', ''.midi'']"

definition extensions_list :: "string list" where
  "extensions_list =
     [''wav'', ''mp3'', ''m4a'', ''aac'', ''flac'', ''ogg'', ''wma'', ''opus'', ''webm'', ''amr'', ''3gp'']"

definition index_formats :: "int \<Rightarrow> string list" where
  "index_formats i = [zfill 4 (str_int i), zfill 3 (str_int i), str_int i]"

subsection \<open>The directory\<close>

text \<open>
  What the function sees of the file system: whether \<^verbatim>\<open>os.listdir\<close> succeeds on the
  directory, its entries in the order of the listing, each with its name and whether
  \<^verbatim>\<open>os.path.isfile\<close> holds of it, and the names among them that are symbolic links to
  nothing.  \<^verbatim>\<open>os.path.exists\<close> holds of an entry unless it is such a link;
  \<^verbatim>\<open>glob.glob\<close> lists the directory and keeps the names that fit, such links included,
  and gives nothing when the directory cannot be listed.  The path of the directory is
  taken to hold no wildcard character.
\<close>

record directory =
  listable :: bool
  entries :: "(string \<times> bool) list"
  dangling :: "string list"

definition path_exists :: "directory \<Rightarrow> string \<Rightarrow> bool" where
  "path_exists d name = (name \<in> set (map fst (entries d)) \<and> name \<notin> set (dangling d))"

definition is_file :: "directory \<Rightarrow> string \<Rightarrow> bool" where
  "is_file d name = ((name, True) \<in> set (entries d))"

text \<open>The patterns \<^verbatim>\<open>{index_str}_*.{ext}\<close> and \<^verbatim>\<open>{index_str}.*\<close>.\<close>

definition glob_suffixed :: "directory \<Rightarrow> string \<Rightarrow> string \<Rightarrow> string list" where
  "glob_suffixed d index_str ext =
     (if listable d
      then [n. (n, k) \<leftarrow> entries d,
               prefix (index_str @ ''_'') n \<and> suffix (''.'' @ ext) n
               \<and> length (index_str @ ''_'') + length (''.'' @ ext) \<le> length n]
      else [])"

definition glob_any_ext :: "directory \<Rightarrow> string \<Rightarrow> string list" where
  "glob_any_ext d index_str =
     (if listable d then [n. (n, k) \<leftarrow> entries d, prefix (index_str @ ''.'') n] else [])"

subsection \<open>The scan of the listing\<close>

fun scan_files :: "string \<Rightarrow> string \<Rightarrow> (string \<times> bool) list \<Rightarrow> string option" where
  "scan_files audio_dir index_str [] = None"
| "scan_files audio_dir index_str ((filename, regular) # all_files) =
     (let filepath = path_join audio_dir filename in
      if \<not> regular then scan_files audio_dir index_str all_files
      else
        (case splitext filename of (name_without_ext, ext) \<Rightarrow>
           let ext_lower = map lower_char ext in
           if ext_lower \<notin> set audio_extensions then scan_files audio_dir index_str all_files
           else if name_without_ext = index_str then Some filepath
           else if prefix (index_str @ ''_'') name_without_ext then Some filepath
           else scan_files audio_dir index_str all_files))"

fun scan_formats :: "string \<Rightarrow> string list \<Rightarrow> (string \<times> bool) list \<Rightarrow> string option" where
  "scan_formats audio_dir [] all_files = None"
| "scan_formats audio_dir (index_str # formats) all_files =
     (case scan_files audio_dir index_str all_files of
        Some filepath \<Rightarrow> Some filepath
      | None \<Rightarrow> scan_formats audio_dir formats all_files)"

subsection \<open>The fallback\<close>

fun try_extensions :: "string \<Rightarrow> directory \<Rightarrow> string \<Rightarrow> string list \<Rightarrow> string option" where
  "try_extensions audio_dir d index_str [] = None"
| "try_extensions audio_dir d index_str (ext # exts) =
     (if path_exists d (index_str @ ''.'' @ ext)
      then Some (path_join audio_dir (index_str @ ''.'' @ ext))
      else if path_exists d (index_str @ ''.'' @ map upper_char ext)
      then Some (path_join audio_dir (index_str @ ''.'' @ map upper_char ext))
      else (case glob_suffixed d index_str ext of
              n # _ \<Rightarrow> Some (path_join audio_dir n)
            | [] \<Rightarrow> try_extensions audio_dir d index_str exts))"

fun try_any_ext :: "string \<Rightarrow> directory \<Rightarrow> string list \<Rightarrow> string option" where
  "try_any_ext audio_dir d [] = None"
| "try_any_ext audio_dir d (n # ns) =
     (if is_file d n \<and> map lower_char (snd (splitext (path_join audio_dir n))) \<in> set audio_extensions
      then Some (path_join audio_dir n)
      else try_any_ext audio_dir d ns)"

fun fallback_formats :: "string \<Rightarrow> directory \<Rightarrow> string list \<Rightarrow> string option" where
  "fallback_formats audio_dir d [] = None"
| "fallback_formats audio_dir d (index_str # formats) =
     (case try_extensions audio_dir d index_str extensions_list of
        Some p \<Rightarrow> Some p
      | None \<Rightarrow>
          (case try_any_ext audio_dir d (glob_any_ext d index_str) of
             Some p \<Rightarrow> Some p
           | None \<Rightarrow> fallback_formats audio_dir d formats))"

subsection \<open>The function\<close>

definition find_audio_for_subtitle :: "SubtitleLine \<Rightarrow> string \<Rightarrow> directory \<Rightarrow> string option" where
  "find_audio_for_subtitle sub audio_dir d =
     (case (if listable d then scan_formats audio_dir (index_formats (index sub)) (entries d)
            else None) of
        Some filepath \<Rightarrow> Some filepath
      | None \<Rightarrow> fallback_formats audio_dir d (index_formats (index sub)))"

text \<open>
  The acceptance test of the specification: a regular file whose extension is on the
  list, whatever its case, and whose name without the extension is the representation
  or starts with the representation and an underscore.
\<close>

definition acceptable :: "string \<Rightarrow> string \<times> bool \<Rightarrow> bool" where
  "acceptable rep e =
     (snd e \<and> map lower_char (snd (splitext (fst e))) \<in> set audio_extensions
      \<and> (fst (splitext (fst e)) = rep \<or> prefix (rep @ ''_'') (fst (splitext (fst e)))))"

definition cue_7 :: SubtitleLine where
  "cue_7 = \<lparr> index = 7, start_time = 0, end_time = 1, duration = 1, text' = ''seven'' \<rparr>"

section \<open>The cue track: \<^verbatim>\<open>parse_srt_file\<close>\<close>

text \<open>
  The pattern of a block,
  \<^verbatim>\<open>(\d+)\s*\n(T)\s*-->\s*(T)\s*\n(.*?)(?=\n\n|\n*$)\<close> under DOTALL, where \<open>T\<close> is
  \<^verbatim>\<open>\d{1,2}:\d{2}:\d{2}[,\.]\d{3}\<close>.  First the time stamp \<open>T\<close>, then the end of text
  \<^verbatim>\<open>$\<close>, which also matches before a final line feed, then the lookahead, then the
  whole pattern with its four groups and the text that remains after the match.
\<close>

definition rx_ts :: rx where
  "rx_ts =
     rx_seq (rx_rep 1 2 (rx_chr is_digit))
      (rx_seq (rx_lit '':'')
        (rx_seq (rx_rep 2 2 (rx_chr is_digit))
          (rx_seq (rx_lit '':'')
            (rx_seq (rx_rep 2 2 (rx_chr is_digit))
              (rx_seq (rx_chr is_sep) (rx_rep 3 3 (rx_chr is_digit)))))))"

definition rx_end :: "string \<Rightarrow> bool" where
  "rx_end s = (s = [] \<or> s = [nl])"

definition block_ahead :: "string \<Rightarrow> bool" where
  "block_ahead r =
     (rx_lit [nl, nl] r \<noteq> [] \<or> list_ex (\<lambda>(a, r'). rx_end r') (rx_star (\<lambda>c. c = nl) r))"

type_synonym block_groups = "string \<times> string \<times> string \<times> string"

definition re_block :: "string \<Rightarrow> (block_groups \<times> string) list" where
  "re_block s =
     [((g1, g2, g3, g4), r).
        (g1, r1) \<leftarrow> rx_plus is_digit s,
        (w1, r2) \<leftarrow> rx_star is_space r1,
        (n1, r3) \<leftarrow> rx_lit [nl] r2,
        (g2, r4) \<leftarrow> rx_ts r3,
        (w2, r5) \<leftarrow> rx_star is_space r4,
        (ar, r6) \<leftarrow> rx_lit ''-->'' r5,
        (w3, r7) \<leftarrow> rx_star is_space r6,
        (g3, r8) \<leftarrow> rx_ts r7,
        (w4, r9) \<leftarrow> rx_star is_space r8,
        (n2, r10) \<leftarrow> rx_lit [nl] r9,
        (g4, r) \<leftarrow> rx_lazy_any r10,
        block_ahead r]"

text \<open>
  \<^verbatim>\<open>re.findall\<close>: the text is searched from left to right; where the pattern matches,
  the groups of the first match are recorded and the search goes on behind the match.
  \<open>skip\<close> counts the characters that still belong to the last match.
\<close>

fun re_findall :: "nat \<Rightarrow> string \<Rightarrow> block_groups list" where
  "re_findall skip [] =
     (if skip = 0 then (case re_match (re_block []) of None \<Rightarrow> [] | Some (g, r) \<Rightarrow> [g]) else [])"
| "re_findall skip (c # cs) =
     (if skip > 0 then re_findall (skip - 1) cs
      else (case re_match (re_block (c # cs)) of
              None \<Rightarrow> re_findall 0 cs
            | Some (g, r) \<Rightarrow> g # re_findall (length (c # cs) - length r - 1) cs))"

text \<open>
  \<^verbatim>\<open>int(s)\<close> on a text of digits.  From Python 3.11 on the conversion refuses a text of
  more than 4300 digits, leading zeros included, with \<^verbatim>\<open>ValueError\<close>.
\<close>

definition max_str_digits :: nat where
  "max_str_digits = 4300"

definition int_of_digits :: "string \<Rightarrow> py_error + int" where
  "int_of_digits s = (if length s > max_str_digits then Inl ValueError else Inr (py_int s))"

text \<open>
  The body of the loop over the matches, and the function.  The function takes the
  content of the file; reading the file is left out.
\<close>

definition make_subtitle :: "block_groups \<Rightarrow> py_error + SubtitleLine" where
  "make_subtitle match =
     (case match of (g1, g2, g3, g4) \<Rightarrow>
        (case int_of_digits g1 of
           Inl e \<Rightarrow> Inl e
         | Inr index' \<Rightarrow>
             (case parse_srt_time g2 of
                Inl e \<Rightarrow> Inl e
              | Inr start \<Rightarrow>
                  (case parse_srt_time g3 of
                     Inl e \<Rightarrow> Inl e
                   | Inr end' \<Rightarrow>
                       Inr \<lparr> index = index', start_time = start, end_time = end',
                             duration = end' - start, text' = strip g4 \<rparr>))))"

fun collect_subtitles :: "block_groups list \<Rightarrow> SubtitleLine list \<Rightarrow> py_error + SubtitleLine list" where
  "collect_subtitles [] subtitles = Inr subtitles"
| "collect_subtitles (match # matches) subtitles =
     (case make_subtitle match of
        Inl e \<Rightarrow> Inl e
      | Inr sub \<Rightarrow> collect_subtitles matches (subtitles @ [sub]))"

definition parse_srt_file :: "string \<Rightarrow> py_error + SubtitleLine list" where
  "parse_srt_file content =
     (case collect_subtitles (re_findall 0 content) [] of
        Inl e \<Rightarrow> Inl e
      | Inr subtitles \<Rightarrow> Inr (sort_key index subtitles))"

text \<open>A time stamp with a fraction, and nothing else.\<close>

definition fraction_stamp :: "string \<Rightarrow> bool" where
  "fraction_stamp g =
     (\<exists>h m s sep ms. hours_field h \<and> digits 2 m \<and> digits 2 s \<and> is_sep sep \<and> digits 3 ms \<and>
        g = h @ '':'' @ m @ '':'' @ s @ [sep] @ ms)"

text \<open>Cue tracks used as examples.\<close>

definition srt_two_blocks :: string where
  "srt_two_blocks =
     ''2'' @ [nl] @ ''00:00:03,000 --> 00:00:04,500'' @ [nl] @ ''Second'' @ [nl, nl]
     @ ''1'' @ [nl] @ ''00:00:01,000 --> 00:00:02,000'' @ [nl] @ ''First'' @ [nl]"

definition srt_plain_block :: string where
  "srt_plain_block = ''1'' @ [nl] @ ''00:00:01 --> 00:00:02'' @ [nl] @ ''Hello'' @ [nl]"

definition srt_long_fraction :: string where
  "srt_long_fraction = ''1'' @ [nl] @ ''00:00:01,0000 --> 00:00:02,000'' @ [nl] @ ''Hello'' @ [nl]"

definition srt_mixed :: string where
  "srt_mixed =
     ''1'' @ [nl] @ ''00:00:01 --> 00:00:02'' @ [nl] @ ''Hello'' @ [nl, nl]
     @ ''2'' @ [nl] @ ''00:00:03,000 --> 00:00:04,000'' @ [nl] @ ''World'' @ [nl]"

definition srt_backwards :: string where
  "srt_backwards = ''1'' @ [nl] @ ''00:00:02,000 --> 00:00:01,000'' @ [nl] @ ''x'' @ [nl]"


definition block_body :: string where
  "block_body = [nl] @ ''00:00:01,000 --> 00:00:02,000'' @ [nl] @ ''x''"

definition srt_long_index :: string where
  "srt_long_index = replicate 4301 CHR ''1'' @ block_body @ [nl]"

text \<open>
  The cue that the specification has for a block: the index, the two time stamps and the
  text are those of the block, the duration is the difference of the two times.
\<close>

definition cue_of_block :: "block_groups \<Rightarrow> SubtitleLine \<Rightarrow> bool" where
  "cue_of_block g c =
     (case g of (g1, g2, g3, g4) \<Rightarrow>
        index c = py_int g1
        \<and> parse_srt_time g2 = Inr (start_time c)
        \<and> parse_srt_time g3 = Inr (end_time c)
        \<and> duration c = end_time c - start_time c
        \<and> text' c = strip g4)"

text \<open>The part of the block pattern that follows the first group.\<close>

definition block_after_index :: "string \<Rightarrow> string \<Rightarrow> (block_groups \<times> string) list" where
  "block_after_index g1 r1 =
     [((g1, g2, g3, g4), r).
        (w1, r2) \<leftarrow> rx_star is_space r1,
        (n1, r3) \<leftarrow> rx_lit [nl] r2,
        (g2, r4) \<leftarrow> rx_ts r3,
        (w2, r5) \<leftarrow> rx_star is_space r4,
        (ar, r6) \<leftarrow> rx_lit ''-->'' r5,
        (w3, r7) \<leftarrow> rx_star is_space r6,
        (g3, r8) \<leftarrow> rx_ts r7,
        (w4, r9) \<leftarrow> rx_star is_space r8,
        (n2, r10) \<leftarrow> rx_lit [nl] r9,
        (g4, r) \<leftarrow> rx_lazy_any r10,
        block_ahead r]"

section \<open>Properties of the time-stamp parser\<close>

subsection \<open>Closed forms of the pattern pieces\<close>

lemma rx_lit1: "rx_lit [c] s = (case s of [] \<Rightarrow> [] | x # r \<Rightarrow> if x = c then [([c], r)] else [])"
  by (simp add: rx_lit.simps rx_seq_def rx_chr_def rx_eps_def split: list.splits)

lemma rx_rep22: "rx_rep 2 2 (rx_chr P) s =
   (case s of a # b # r \<Rightarrow> if P a \<and> P b then [([a, b], r)] else [] | _ \<Rightarrow> [])"
  by (simp add: rx_rep.simps numeral_2_eq_2 rx_seq_def rx_chr_def rx_eps_def split: list.splits)

lemma rx_rep33: "rx_rep 3 3 (rx_chr P) s =
   (case s of a # b # c # r \<Rightarrow> if P a \<and> P b \<and> P c then [([a, b, c], r)] else [] | _ \<Rightarrow> [])"
  by (simp add: rx_rep.simps numeral_3_eq_3 rx_seq_def rx_chr_def rx_eps_def split: list.splits)

lemma rx_rep12: "rx_rep (Suc 0) 2 (rx_chr P) s =
   (case s of [] \<Rightarrow> []
    | [a] \<Rightarrow> if P a then [([a], [])] else []
    | a # b # r \<Rightarrow> if P a then (if P b then [([a, b], r), ([a], b # r)] else [([a], b # r)]) else [])"
  by (simp add: rx_rep.simps numeral_2_eq_2 rx_seq_def rx_chr_def rx_eps_def split: list.splits)

declare rx_rep.simps [simp del] rx_lit.simps [simp del]

lemma hours_field_iff:
  "hours_field h \<longleftrightarrow>
     (\<exists>a. h = [a] \<and> is_digit a) \<or> (\<exists>a b. h = [a, b] \<and> is_digit a \<and> is_digit b)"
proof (cases h)
  case Nil then show ?thesis by (simp add: hours_field_def)
next
  case (Cons a h')
  show ?thesis
  proof (cases h')
    case Nil with Cons show ?thesis by (simp add: hours_field_def)
  next
    case (Cons b h'') with \<open>h = a # h'\<close> show ?thesis by (cases h'') (auto simp: hours_field_def)
  qed
qed

lemma digits2_iff: "digits 2 s \<longleftrightarrow> (\<exists>a b. s = [a, b] \<and> is_digit a \<and> is_digit b)"
proof (cases s)
  case Nil then show ?thesis by (simp add: digits_def)
next
  case (Cons a s') then show ?thesis by (cases s') (auto simp: digits_def)
qed

lemma digits3_iff: "digits 3 s \<longleftrightarrow> (\<exists>a b c. s = [a, b, c] \<and> is_digit a \<and> is_digit b \<and> is_digit c)"
proof (cases s)
  case Nil then show ?thesis by (simp add: digits_def)
next
  case (Cons a s')
  show ?thesis
  proof (cases s')
    case Nil with Cons show ?thesis by (simp add: digits_def)
  next
    case (Cons b s'') with \<open>s = a # s'\<close> show ?thesis by (cases s'') (auto simp: digits_def)
  qed
qed

lemma digit_not_colon: "is_digit c \<Longrightarrow> c \<noteq> CHR '':''"
  by (auto simp: is_digit_def)

lemma digit_not_sep: "is_digit c \<Longrightarrow> c \<noteq> CHR ''.'' \<and> c \<noteq> CHR '',''"
  by (auto simp: is_digit_def)

lemma digit_not_space: "is_digit c \<Longrightarrow> \<not> is_space c"
  by (auto simp: is_digit_def is_space_def)

lemma re_time_plain_shape:
  assumes "hours_field h" "digits 2 m" "digits 2 s"
  shows "re_time_plain (h @ '':'' @ m @ '':'' @ s @ rest) = [(h, m, s)]"
  using assms
  by (auto simp: hours_field_iff digits2_iff re_time_plain_def rx_rep12 rx_rep22 rx_lit1
        digit_not_colon)

lemma re_time_frac_shape:
  assumes "hours_field h" "digits 2 m" "digits 2 s"
  shows "re_time_frac (h @ '':'' @ m @ '':'' @ s @ rest) =
           [(h, m, s, ms). (c3, r6) \<leftarrow> rx_lit ''.'' rest, (ms, r7) \<leftarrow> rx_rep 3 3 (rx_chr is_digit) r6]"
  using assms
  by (auto simp: hours_field_iff digits2_iff re_time_frac_def rx_rep12 rx_rep22
        digit_not_colon rx_lit1[of "CHR '':''"])


lemma str_replace_comma: "str_replace CHR '','' ''.'' s = map comma_to_dot s"
  by (induction s) (simp_all add: str_replace_def comma_to_dot_def)

lemma map_comma_digits: "list_all is_digit s \<Longrightarrow> map comma_to_dot s = s"
  by (induction s) (auto simp: comma_to_dot_def dest: digit_not_sep)

lemma rstrip_prefix: "\<exists>sp. s = rstrip s @ sp"
proof -
  have "rev (dropWhile is_space (rev s)) @ rev (takeWhile is_space (rev s))
          = rev (takeWhile is_space (rev s) @ dropWhile is_space (rev s))"
    by (simp only: rev_append)
  also have "\<dots> = s"
    by (simp only: takeWhile_dropWhile_id rev_rev_ident)
  finally have "s = rstrip s @ rev (takeWhile is_space (rev s))"
    by (simp only: rstrip_def)
  then show ?thesis ..
qed

lemma rstrip_keep:
  assumes "a \<noteq> []" "\<not> is_space (last a)"
  shows "rstrip (a @ r) = a @ rstrip r"
proof -
  from assms have 2: "dropWhile is_space (rev a) = rev a"
    by (cases "rev a") (auto simp: last_rev hd_rev dest: arg_cong[where f=hd])
  have "dropWhile is_space (rev r @ rev a) = dropWhile is_space (rev r) @ rev a"
    using 2 by (auto simp: dropWhile_append dropWhile_eq_Nil_conv)
  then show ?thesis by (simp add: rstrip_def)
qed

lemma strip_core:
  assumes "a \<noteq> []" "\<not> is_space (hd a)" "\<not> is_space (last a)"
  shows "strip (a @ rest) = a @ rstrip rest"
proof -
  from assms obtain c a' where a: "a = c # a'" by (cases a) auto
  with assms have "dropWhile is_space (a @ rest) = a @ rest" by simp
  then show ?thesis using assms by (simp add: strip_def rstrip_keep)
qed

lemma digit_comma_to_dot: "is_digit (comma_to_dot c) \<longleftrightarrow> is_digit c"
  by (auto simp: comma_to_dot_def is_digit_def)

lemma digit_comma_to_dot_id: "is_digit c \<Longrightarrow> comma_to_dot c = c"
  by (auto simp: comma_to_dot_def is_digit_def)

lemma sep_comma_to_dot: "comma_to_dot c = CHR ''.'' \<longleftrightarrow> is_sep c"
  by (auto simp: comma_to_dot_def is_sep_def)

lemma frac_tail_comma:
  "frac_tail (map comma_to_dot r) = (if fraction_follows r then [take 3 (tl r)] else [])"
proof (cases r)
  case Nil then show ?thesis by (simp add: frac_tail_def rx_lit1 fraction_follows_def)
next
  case r1: (Cons c r1)
  show ?thesis
  proof (cases r1)
    case Nil with r1 show ?thesis
      by (simp add: frac_tail_def rx_lit1 rx_rep33 fraction_follows_def)
  next
    case r2: (Cons x r2)
    show ?thesis
    proof (cases r2)
      case Nil with r1 r2 show ?thesis
        by (simp add: frac_tail_def rx_lit1 rx_rep33 fraction_follows_def)
    next
      case r3: (Cons y r3)
      show ?thesis
      proof (cases r3)
        case Nil with r1 r2 r3 show ?thesis
          by (simp add: frac_tail_def rx_lit1 rx_rep33 fraction_follows_def)
      next
        case (Cons z r4) with r1 r2 r3 show ?thesis
          by (auto simp: frac_tail_def rx_lit1 rx_rep33 fraction_follows_def
                sep_comma_to_dot digit_comma_to_dot digit_comma_to_dot_id)
      qed
    qed
  qed
qed

lemma fraction_follows_rstrip: "fraction_follows (rstrip r) \<longleftrightarrow> fraction_follows r"
proof
  assume l: "fraction_follows (rstrip r)"
  obtain sp where "r = rstrip r @ sp" using rstrip_prefix by blast
  moreover from l obtain c x y z u where "rstrip r = c # x # y # z # u"
    by (auto simp: fraction_follows_def split: list.splits)
  ultimately have "r = c # x # y # z # (u @ sp)" by simp
  with l \<open>rstrip r = c # x # y # z # u\<close> show "fraction_follows r"
    by (simp add: fraction_follows_def)
next
  assume l: "fraction_follows r"
  then obtain c x y z u where r: "r = [c, x, y, z] @ u" and z: "is_digit z"
    by (auto simp: fraction_follows_def split: list.splits)
  have "rstrip ([c, x, y, z] @ u) = [c, x, y, z] @ rstrip u"
    by (rule rstrip_keep) (use z in \<open>auto dest: digit_not_space\<close>)
  with l r show "fraction_follows (rstrip r)" by (simp add: fraction_follows_def)
qed

lemma take3_rstrip: "fraction_follows r \<Longrightarrow> take 3 (tl (rstrip r)) = take 3 (tl r)"
proof -
  assume l: "fraction_follows r"
  then obtain c x y z u where r: "r = [c, x, y, z] @ u" and z: "is_digit z"
    by (auto simp: fraction_follows_def split: list.splits)
  have "rstrip ([c, x, y, z] @ u) = [c, x, y, z] @ rstrip u"
    by (rule rstrip_keep) (use z in \<open>auto dest: digit_not_space\<close>)
  with r show ?thesis by simp
qed

lemma stamp_normalised:
  assumes "hours_field h" "digits 2 m" "digits 2 s"
  shows "str_replace CHR '','' ''.'' (strip (h @ '':'' @ m @ '':'' @ s @ rest))
           = h @ '':'' @ m @ '':'' @ s @ map comma_to_dot (rstrip rest)"
proof -
  let ?a = "h @ '':'' @ m @ '':'' @ s"
  from assms have dh: "list_all is_digit h" and dm: "list_all is_digit m" and ds: "list_all is_digit s"
    by (auto simp: hours_field_def digits_def)
  from assms have "?a \<noteq> []" "\<not> is_space (hd ?a)" "\<not> is_space (last ?a)"
    by (auto simp: hours_field_iff digits2_iff dest: digit_not_space)
  then have "strip (?a @ rest) = ?a @ rstrip rest"
    by (rule strip_core)
  then have "strip (h @ '':'' @ m @ '':'' @ s @ rest) = h @ '':'' @ m @ '':'' @ s @ rstrip rest"
    by simp
  then show ?thesis
    using dh dm ds by (simp add: str_replace_comma map_comma_digits comma_to_dot_def)
qed

lemma re_time_frac_normalised:
  assumes "hours_field h" "digits 2 m" "digits 2 s"
  shows "re_time_frac (str_replace CHR '','' ''.'' (strip (h @ '':'' @ m @ '':'' @ s @ rest)))
           = (if fraction_follows rest then [(h, m, s, take 3 (tl rest))] else [])"
proof -
  let ?r = "map comma_to_dot (rstrip rest)"
  have "re_time_frac (h @ '':'' @ m @ '':'' @ s @ ?r) = map (\<lambda>ms. (h, m, s, ms)) (frac_tail ?r)"
    using re_time_frac_shape[OF assms, of ?r]
    by (simp add: frac_tail_def map_concat comp_def case_prod_unfold)
  then show ?thesis
    unfolding stamp_normalised[OF assms]
    by (simp add: frac_tail_comma fraction_follows_rstrip take3_rstrip)
qed

lemma parse_srt_time_prefix:
  assumes "hours_field h" "digits 2 m" "digits 2 s"
  shows "parse_srt_time (h @ '':'' @ m @ '':'' @ s @ rest) =
           Inr (of_int (py_int h) * 3600 + of_int (py_int m) * 60 + of_int (py_int s)
                + (if fraction_follows rest then of_int (py_int (take 3 (tl rest))) / 1000 else 0))"
proof -
  let ?r = "map comma_to_dot (rstrip rest)"
  have p: "re_time_plain (str_replace CHR '','' ''.'' (strip (h @ '':'' @ m @ '':'' @ s @ rest)))
             = [(h, m, s)]"
    unfolding stamp_normalised[OF assms] using assms by (rule re_time_plain_shape)
  show ?thesis
    unfolding parse_srt_time_def Let_def p re_time_frac_normalised[OF assms]
    by (simp add: re_match_def)
qed

lemma mem_rx_lit1: "(a, r) \<in> set (rx_lit [c] t) \<Longrightarrow> t = c # r"
  by (auto simp: rx_lit1 split: list.splits if_splits)

lemma mem_rx_rep12:
  assumes "(a, r) \<in> set (rx_rep (Suc 0) 2 (rx_chr is_digit) t)"
  shows "t = a @ r \<and> hours_field a"
proof (cases t)
  case Nil
  with assms show ?thesis by (simp add: rx_rep12)
next
  case (Cons x t')
  show ?thesis
  proof (cases t')
    case Nil
    with Cons assms show ?thesis
      by (auto simp: rx_rep12 hours_field_def split: if_splits)
  next
    case (Cons y t'')
    with \<open>t = x # t'\<close> assms show ?thesis
      by (auto simp: rx_rep12 hours_field_def split: if_splits)
  qed
qed

lemma mem_rx_rep22:
  "(a, r) \<in> set (rx_rep 2 2 (rx_chr is_digit) t) \<Longrightarrow> t = a @ r \<and> digits 2 a"
  by (auto simp: rx_rep22 digits_def split: list.splits if_splits)

lemma mem_rx_rep33:
  "(a, r) \<in> set (rx_rep 3 3 (rx_chr is_digit) t) \<Longrightarrow> t = a @ r \<and> digits 3 a"
  by (auto simp: rx_rep33 digits_def split: list.splits if_splits)

lemma re_time_plain_sound:
  assumes "re_time_plain t \<noteq> []"
  shows "\<exists>h m s rest. hours_field h \<and> digits 2 m \<and> digits 2 s \<and> t = h @ '':'' @ m @ '':'' @ s @ rest"
proof -
  from assms obtain x where "x \<in> set (re_time_plain t)" by (cases "re_time_plain t") auto
  then obtain h r1 c1 r2 m r3 c2 r4 s r5 where
    1: "(h, r1) \<in> set (rx_rep (Suc 0) 2 (rx_chr is_digit) t)" and
    2: "(c1, r2) \<in> set (rx_lit '':'' r1)" and
    3: "(m, r3) \<in> set (rx_rep 2 2 (rx_chr is_digit) r2)" and
    4: "(c2, r4) \<in> set (rx_lit '':'' r3)" and
    5: "(s, r5) \<in> set (rx_rep 2 2 (rx_chr is_digit) r4)"
    by (auto simp: re_time_plain_def)
  from mem_rx_rep12[OF 1] mem_rx_lit1[OF 2] mem_rx_rep22[OF 3] mem_rx_lit1[OF 4] mem_rx_rep22[OF 5]
  have "hours_field h \<and> digits 2 m \<and> digits 2 s \<and> t = h @ '':'' @ m @ '':'' @ s @ r5"
    by simp
  then show ?thesis by blast
qed

lemma re_time_frac_plain: "re_time_frac t \<noteq> [] \<Longrightarrow> re_time_plain t \<noteq> []"
proof -
  assume "re_time_frac t \<noteq> []"
  then obtain x where "x \<in> set (re_time_frac t)" by (cases "re_time_frac t") auto
  then obtain h r1 c1 r2 m r3 c2 r4 s r5 where
    1: "(h, r1) \<in> set (rx_rep (Suc 0) 2 (rx_chr is_digit) t)" and
    2: "(c1, r2) \<in> set (rx_lit '':'' r1)" and
    3: "(m, r3) \<in> set (rx_rep 2 2 (rx_chr is_digit) r2)" and
    4: "(c2, r4) \<in> set (rx_lit '':'' r3)" and
    5: "(s, r5) \<in> set (rx_rep 2 2 (rx_chr is_digit) r4)"
    by (auto simp: re_time_frac_def)
  from mem_rx_rep12[OF 1] mem_rx_lit1[OF 2] mem_rx_rep22[OF 3] mem_rx_lit1[OF 4] mem_rx_rep22[OF 5]
  have "hours_field h" "digits 2 m" "digits 2 s" "t = h @ '':'' @ m @ '':'' @ s @ r5"
    by simp_all
  then show ?thesis using re_time_plain_shape[of h m s r5] by simp
qed

lemma comma_to_dot_take:
  assumes "map comma_to_dot u = a @ r" "CHR ''.'' \<notin> set a"
  shows "u = a @ drop (length a) u \<and> r = map comma_to_dot (drop (length a) u)"
proof -
  from assms(1) have m: "map comma_to_dot (take (length a) u) = a"
    and r: "map comma_to_dot (drop (length a) u) = r"
    by (metis append_eq_conv_conj take_map, metis append_eq_conv_conj drop_map)
  have "\<forall>c \<in> set (take (length a) u). comma_to_dot c = c"
  proof
    fix c assume "c \<in> set (take (length a) u)"
    moreover from m have "set a = comma_to_dot ` set (take (length a) u)"
      by (metis set_map)
    ultimately have "comma_to_dot c \<in> set a" by blast
    with assms(2) have "comma_to_dot c \<noteq> CHR ''.''" by metis
    then show "comma_to_dot c = c" by (auto simp: comma_to_dot_def split: if_splits)
  qed
  then have "map comma_to_dot (take (length a) u) = take (length a) u"
    by (simp add: map_idI)
  with m have "take (length a) u = a" by simp
  then have "u = a @ drop (length a) u" by (metis append_take_drop_id)
  with r show ?thesis by simp
qed

lemma plain_pattern_comma:
  "matches_plain_pattern (map comma_to_dot u) \<Longrightarrow> matches_plain_pattern u"
proof -
  assume "matches_plain_pattern (map comma_to_dot u)"
  then obtain h m s rest where hms: "hours_field h" "digits 2 m" "digits 2 s"
    and t: "map comma_to_dot u = (h @ '':'' @ m @ '':'' @ s) @ rest"
    by (auto simp: matches_plain_pattern_def)
  from hms have "CHR ''.'' \<notin> set (h @ '':'' @ m @ '':'' @ s)"
    by (auto simp: hours_field_def digits_def list_all_iff dest: digit_not_sep)
  from comma_to_dot_take[OF t this]
  have "u = h @ '':'' @ m @ '':'' @ s @ drop (length (h @ '':'' @ m @ '':'' @ s)) u" by simp
  with hms show ?thesis unfolding matches_plain_pattern_def by blast
qed

lemma fraction_is_plain: "matches_fraction_pattern t \<Longrightarrow> matches_plain_pattern t"
  unfolding matches_fraction_pattern_def matches_plain_pattern_def by blast

lemma parse_srt_time_error_iff:
  "parse_srt_time x = Inl e \<longleftrightarrow>
     e = ValueError \<and> re_time_plain (str_replace CHR '','' ''.'' (strip x)) = []"
proof (cases "re_time_frac (str_replace CHR '','' ''.'' (strip x))")
  case Nil
  then show ?thesis
    by (cases "re_time_plain (str_replace CHR '','' ''.'' (strip x))")
       (auto simp: parse_srt_time_def re_match_def)
next
  case (Cons a as)
  then have "re_time_plain (str_replace CHR '','' ''.'' (strip x)) \<noteq> []"
    using re_time_frac_plain by simp
  with Cons show ?thesis
    by (auto simp: parse_srt_time_def re_match_def split: prod.splits)
qed

lemma parse_srt_time_fails_plain:
  "parse_srt_time x = Inl ValueError \<longleftrightarrow> \<not> matches_plain_pattern (strip x)"
proof
  assume "parse_srt_time x = Inl ValueError"
  then have e: "re_time_plain (map comma_to_dot (strip x)) = []"
    by (simp add: parse_srt_time_error_iff str_replace_comma)
  show "\<not> matches_plain_pattern (strip x)"
  proof
    assume "matches_plain_pattern (strip x)"
    then obtain h m s rest where hms: "hours_field h" "digits 2 m" "digits 2 s"
      and t: "strip x = h @ '':'' @ m @ '':'' @ s @ rest"
      by (auto simp: matches_plain_pattern_def)
    from hms have "map comma_to_dot (strip x) = h @ '':'' @ m @ '':'' @ s @ map comma_to_dot rest"
      unfolding t by (simp add: map_comma_digits hours_field_def digits_def comma_to_dot_def)
    with e re_time_plain_shape[OF hms] show False by simp
  qed
next
  assume n: "\<not> matches_plain_pattern (strip x)"
  have "re_time_plain (map comma_to_dot (strip x)) = []"
  proof (rule ccontr)
    assume "re_time_plain (map comma_to_dot (strip x)) \<noteq> []"
    then have "matches_plain_pattern (map comma_to_dot (strip x))"
      unfolding matches_plain_pattern_def by (rule re_time_plain_sound)
    then show False using n plain_pattern_comma by blast
  qed
  then show "parse_srt_time x = Inl ValueError"
    by (simp add: parse_srt_time_error_iff str_replace_comma)
qed

subsection \<open>The value of a time stamp\<close>

text \<open>
  Claim C3.  A time stamp \<open>H:MM:SS.mmm\<close> or \<open>H:MM:SS,mmm\<close>, with one or two hour digits,
  parses to \<open>h * 3600 + m * 60 + s + ms / 1000\<close>, and the form \<open>H:MM:SS\<close> without a
  fraction parses to \<open>h * 3600 + m * 60 + s\<close>.  In particular \<open>01:02:03,456\<close> gives
  \<open>3723.456\<close> and \<open>1:00:00\<close> gives \<open>3600\<close>.
\<close>

theorem parse_srt_time_value:
  assumes "hours_field h" "digits 2 m" "digits 2 s" "digits 3 ms" "is_sep sep"
  shows "parse_srt_time (h @ '':'' @ m @ '':'' @ s @ [sep] @ ms) =
           Inr (of_int (py_int h) * 3600 + of_int (py_int m) * 60 + of_int (py_int s)
                + of_int (py_int ms) / 1000)
         \<and> parse_srt_time (h @ '':'' @ m @ '':'' @ s) =
           Inr (of_int (py_int h) * 3600 + of_int (py_int m) * 60 + of_int (py_int s))
         \<and> parse_srt_time ''01:02:03,456'' = Inr 3723.456
         \<and> parse_srt_time ''1:00:00'' = Inr 3600"
proof -
  from assms(4) obtain x y z where ms: "ms = [x, y, z]" "is_digit x" "is_digit y" "is_digit z"
    by (auto simp: digits3_iff)
  with assms(5) have ff: "fraction_follows ([sep] @ ms)"
    by (simp add: fraction_follows_def)
  have "parse_srt_time (h @ '':'' @ m @ '':'' @ s @ [sep] @ ms) =
           Inr (of_int (py_int h) * 3600 + of_int (py_int m) * 60 + of_int (py_int s)
                + of_int (py_int ms) / 1000)"
    using parse_srt_time_prefix[OF assms(1-3), of "[sep] @ ms"] ff ms(1) by simp
  moreover have "parse_srt_time (h @ '':'' @ m @ '':'' @ s) =
           Inr (of_int (py_int h) * 3600 + of_int (py_int m) * 60 + of_int (py_int s))"
    using parse_srt_time_prefix[OF assms(1-3), of "[]"] by (simp add: fraction_follows_def)
  moreover have "parse_srt_time ''01:02:03,456'' = Inr 3723.456"
    by code_simp
  moreover have "parse_srt_time ''1:00:00'' = Inr 3600"
    by code_simp
  ultimately show ?thesis by simp
qed

theorem parse_srt_time_value_witness:
  "hours_field ''12'' \<and> digits 2 ''34'' \<and> digits 2 ''56'' \<and> digits 3 ''789'' \<and> is_sep CHR ''.''
   \<and> parse_srt_time ''12:34:56.789'' = Inr 45296.789
   \<and> parse_srt_time ''12:34:56'' = Inr 45296"
proof -
  have h: "hours_field ''12''" "digits 2 ''34''" "digits 2 ''56''" "digits 3 ''789''" "is_sep CHR ''.''"
    by (simp_all add: hours_field_def digits_def is_digit_def is_sep_def)
  have v: "py_int ''12'' = 12" "py_int ''34'' = 34" "py_int ''56'' = 56" "py_int ''789'' = 789"
    by (simp_all add: py_int_def digit_val_def)
  from parse_srt_time_value[OF h] h show ?thesis
    by (simp add: v)
qed

subsection \<open>Failure\<close>

text \<open>
  Claim C7.  The parser fails, with \<^verbatim>\<open>ValueError\<close> (the specification's \<open>FormatError\<close>),
  exactly on the inputs that match neither the pattern with a fraction nor the plain
  pattern.  Matching is what \<^verbatim>\<open>re.match\<close> does after \<^verbatim>\<open>strip\<close>: the pattern has to be
  found at the start of the text once surrounding white space is gone.
\<close>

theorem parse_srt_time_fails_iff:
  "(parse_srt_time x = Inl ValueError \<longleftrightarrow>
      \<not> matches_fraction_pattern (strip x) \<and> \<not> matches_plain_pattern (strip x))
   \<and> (\<forall>e. parse_srt_time x = Inl e \<longrightarrow> e = ValueError)"
  using parse_srt_time_fails_plain[of x] fraction_is_plain[of "strip x"]
    parse_srt_time_error_iff[of x]
  by blast

theorem parse_srt_time_fails_iff_witness:
  "parse_srt_time ''12h30'' = Inl ValueError
   \<and> \<not> matches_fraction_pattern (strip ''12h30'') \<and> \<not> matches_plain_pattern (strip ''12h30'')
   \<and> parse_srt_time '' 1:00:00'' = Inr 3600
   \<and> (matches_fraction_pattern (strip '' 1:00:00'') \<or> matches_plain_pattern (strip '' 1:00:00''))"
proof -
  have 1: "parse_srt_time ''12h30'' = Inl ValueError" by code_simp
  have 2: "parse_srt_time '' 1:00:00'' = Inr 3600" by code_simp
  from 1 parse_srt_time_fails_iff[of "''12h30''"]
  have "\<not> matches_fraction_pattern (strip ''12h30'') \<and> \<not> matches_plain_pattern (strip ''12h30'')"
    by blast
  moreover from 2 parse_srt_time_fails_iff[of "'' 1:00:00''"]
  have "matches_fraction_pattern (strip '' 1:00:00'') \<or> matches_plain_pattern (strip '' 1:00:00'')"
    by auto
  ultimately show ?thesis using 1 2 by blast
qed

subsection \<open>Matching is anchored at the start only\<close>

text \<open>
  Claim C10.  Whatever follows a time stamp at the start of the text, parsing succeeds.
  The value is that of the \<open>H:MM:SS\<close> prefix, plus the milliseconds if a separator and
  three digits follow; nothing else of the trailing text has any influence.  A fraction
  of fewer than three digits is dropped: \<open>01:02:03.45\<close> gives \<open>3723\<close>.
\<close>

theorem parse_srt_time_prefix_anchored:
  assumes "hours_field h" "digits 2 m" "digits 2 s"
  shows "parse_srt_time (h @ '':'' @ m @ '':'' @ s @ rest) =
           Inr (of_int (py_int h) * 3600 + of_int (py_int m) * 60 + of_int (py_int s)
                + (if fraction_follows rest then of_int (py_int (take 3 (tl rest))) / 1000 else 0))
         \<and> parse_srt_time ''01:02:03.45'' = Inr 3723"
proof -
  have "parse_srt_time ''01:02:03.45'' = Inr 3723" by code_simp
  with parse_srt_time_prefix[OF assms, of rest] show ?thesis by simp
qed

theorem parse_srt_time_prefix_anchored_witness:
  "hours_field ''7'' \<and> digits 2 ''08'' \<and> digits 2 ''09''
   \<and> parse_srt_time ''7:08:09,5 and more'' = Inr 25689
   \<and> parse_srt_time ''7:08:09,250 --> 7:08:10,000'' = Inr 25689.25"
proof -
  have h: "hours_field ''7''" "digits 2 ''08''" "digits 2 ''09''"
    by (simp_all add: hours_field_def digits_def is_digit_def)
  have v: "py_int ''7'' = 7" "py_int ''08'' = 8" "py_int ''09'' = 9" "py_int ''250'' = 250"
    by (simp_all add: py_int_def digit_val_def)
  have f: "\<not> fraction_follows '',5 and more''" "fraction_follows '',250 --> 7:08:10,000''"
    by (simp_all add: fraction_follows_def is_sep_def is_digit_def)
  from parse_srt_time_prefix_anchored[OF h, of "'',5 and more''"]
       parse_srt_time_prefix_anchored[OF h, of "'',250 --> 7:08:10,000''"] h f
  show ?thesis by (simp add: v)
qed

section \<open>The speed decision\<close>

text \<open>
  Claim C6, as the program has it.  For every cue and every measured clip length the
  match is built unless the division fails, which happens exactly when the clip is
  longer than a cue of length zero.  Then \<open>needs_speedup\<close> holds exactly when the clip
  is longer than the cue, \<open>speed_factor\<close> is the ratio of the two lengths in that case
  and \<open>1\<close> otherwise, and \<open>speed_factor\<close> is at least \<open>1\<close> whenever the cue has a
  positive length.
\<close>

theorem make_audio_match_speed:
  "(make_audio_match sub path dur = Inl ZeroDivisionError \<longleftrightarrow> duration sub = 0 \<and> 0 < dur)
   \<and> (\<forall>m. make_audio_match sub path dur = Inr m \<longrightarrow>
          (needs_speedup m \<longleftrightarrow> dur > duration sub)
          \<and> speed_factor m = (if dur > duration sub then dur / duration sub else 1)
          \<and> (0 < duration sub \<longrightarrow> 1 \<le> speed_factor m)
          \<and> subtitle m = sub \<and> audio_path m = path \<and> audio_duration m = dur)"
  by (auto simp: make_audio_match_def Let_def)

theorem make_audio_match_speed_witness:
  "make_audio_match \<lparr> index = 3, start_time = 5, end_time = 6, duration = 1, text' = ''hi'' \<rparr>
      ''0003.wav'' (3 / 2)
     = Inr \<lparr> subtitle = \<lparr> index = 3, start_time = 5, end_time = 6, duration = 1, text' = ''hi'' \<rparr>,
             audio_path = ''0003.wav'', audio_duration = 3 / 2, needs_speedup = True,
             speed_factor = 3 / 2, processed_path = None \<rparr>
   \<and> (0::real) < duration \<lparr> index = 3, start_time = 5, end_time = 6, duration = 1, text' = ''hi'' \<rparr>
   \<and> (1::real) \<le> 3 / 2"
proof -
  let ?c = "\<lparr> index = 3, start_time = 5, end_time = 6, duration = 1, text' = ''hi'' \<rparr>"
  have e: "make_audio_match ?c ''0003.wav'' (3 / 2)
     = Inr \<lparr> subtitle = ?c, audio_path = ''0003.wav'', audio_duration = 3 / 2, needs_speedup = True,
             speed_factor = 3 / 2, processed_path = None \<rparr>"
    by (simp add: make_audio_match_def)
  from make_audio_match_speed[of ?c "''0003.wav''" "3 / 2"] e show ?thesis by simp
qed

text \<open>
  The claim as stated, with \<open>speed_factor \<ge> 1\<close> for every match, fails for a cue whose
  end precedes its start, which is what the parser returns for a block with such time
  stamps: a clip of one second is matched with a speed factor of \<open>- 1\<close>.
\<close>

theorem speed_factor_below_one:
  "parse_srt_file srt_backwards = Inr [cue_backwards]
   \<and> map_sum id needs_speedup (make_audio_match cue_backwards ''0001.wav'' 1) = Inr True
   \<and> map_sum id speed_factor (make_audio_match cue_backwards ''0001.wav'' 1) = Inr (- 1)
   \<and> \<not> (1::real) \<le> - 1"
proof -
  have "parse_srt_file srt_backwards = Inr [cue_backwards]"
    unfolding srt_backwards_def cue_backwards_def by code_simp
  then show ?thesis
    by (simp add: make_audio_match_def cue_backwards_def)
qed

section \<open>Properties of the filter chain\<close>

subsection \<open>Decimal output read back\<close>

declare str_nat.simps [simp del]

lemma digit_char_digit: "d < 10 \<Longrightarrow> is_digit (digit_char d) \<and> digit_val (digit_char d) = int d"
proof -
  assume "d < 10"
  then have "d \<in> {0, 1, 2, 3, 4, 5, 6, 7, 8, 9}" by auto
  then show ?thesis
    by (auto simp: digit_char_def is_digit_def digit_val_def)
qed

lemma py_int_snoc: "py_int (s @ [c]) = 10 * py_int s + digit_val c"
  by (simp add: py_int_def)

lemma str_nat_props: "list_all is_digit (str_nat n) \<and> py_int (str_nat n) = int n \<and> str_nat n \<noteq> []"
proof (induction n rule: str_nat.induct)
  case (1 n)
  show ?case
  proof (cases "n < 10")
    case True
    then show ?thesis
      using digit_char_digit[of n] by (simp add: str_nat.simps[of n] py_int_def)
  next
    case False
    with 1 have ih: "list_all is_digit (str_nat (n div 10))" "py_int (str_nat (n div 10)) = int (n div 10)"
      by simp_all
    have "n mod 10 < 10" by simp
    from digit_char_digit[OF this] ih False show ?thesis
      by (simp add: str_nat.simps[of n] py_int_snoc zdiv_int zmod_int)
  qed
qed

lemma str_nat_length: "n < 10 ^ k \<Longrightarrow> 0 < k \<Longrightarrow> length (str_nat n) \<le> k"
proof (induction n arbitrary: k rule: str_nat.induct)
  case (1 n)
  show ?case
  proof (cases "n < 10")
    case True
    with 1(3) show ?thesis by (simp add: str_nat.simps[of n])
  next
    case False
    with 1(2) have "1 < k" by (cases k; cases "k - 1") auto
    then obtain k' where k: "k = Suc k'" "0 < k'" by (cases k) auto
    with 1(2) have "n div 10 < 10 ^ k'" by (simp add: less_mult_imp_div_less mult.commute)
    from 1(1)[OF False this k(2)] k False show ?thesis
      by (simp add: str_nat.simps[of n])
  qed
qed

lemma py_int_zeros: "py_int (replicate j CHR ''0'' @ s) = py_int s"
proof (induction j)
  case 0 show ?case by simp
next
  case (Suc j)
  have "foldl (\<lambda>a c. 10 * a + digit_val c) 0 (CHR ''0'' # replicate j CHR ''0'' @ s)
          = foldl (\<lambda>a c. 10 * a + digit_val c) 0 (replicate j CHR ''0'' @ s)"
    by (simp add: digit_val_def)
  with Suc show ?case by (simp add: py_int_def)
qed

lemma zfill_digits:
  assumes "list_all is_digit s" "s \<noteq> []"
  shows "zfill w s = replicate (w - length s) CHR ''0'' @ s"
proof -
  from assms obtain c cs where s: "s = c # cs" "is_digit c" by (cases s) auto
  then have "c \<noteq> CHR ''+''" "c \<noteq> CHR ''-''" by (auto simp: is_digit_def)
  with s show ?thesis by (simp add: zfill_def)
qed

lemma zfill_str_nat: "zfill w (str_nat n) = replicate (w - length (str_nat n)) CHR ''0'' @ str_nat n"
  using str_nat_props[of n] by (simp add: zfill_digits)

lemma digits_no_dot: "list_all is_digit s \<Longrightarrow> takeWhile (\<lambda>c. c \<noteq> CHR ''.'') (s @ CHR ''.'' # t) = s
   \<and> dropWhile (\<lambda>c. c \<noteq> CHR ''.'') (s @ CHR ''.'' # t) = CHR ''.'' # t"
  by (induction s) (auto dest: digit_not_sep)

lemma read_decimal_fixed:
  assumes "b < 10 ^ 6"
  shows "read_decimal (str_nat a @ ''.'' @ zfill 6 (str_nat b)) = real a + real b / 10 ^ 6"
proof -
  let ?f = "zfill 6 (str_nat b)"
  have len: "length (str_nat b) \<le> 6" using assms by (rule str_nat_length) simp
  have f: "?f = replicate (6 - length (str_nat b)) CHR ''0'' @ str_nat b" by (rule zfill_str_nat)
  then have "length ?f = 6" using len by simp
  moreover have "py_int ?f = int b" using f str_nat_props[of b] by (simp add: py_int_zeros)
  moreover have "takeWhile (\<lambda>c. c \<noteq> CHR ''.'') (str_nat a @ CHR ''.'' # ?f) = str_nat a"
    "dropWhile (\<lambda>c. c \<noteq> CHR ''.'') (str_nat a @ CHR ''.'' # ?f) = CHR ''.'' # ?f"
    using digits_no_dot[of "str_nat a" ?f] str_nat_props[of a] by simp_all
  ultimately show ?thesis
    using str_nat_props[of a] by (simp add: read_decimal_def Let_def)
qed

lemma round_half_even_near: "\<bar>of_int (round_half_even y) - y\<bar> \<le> 1 / 2"
proof -
  have "of_int \<lfloor>y\<rfloor> \<le> y" "y < of_int \<lfloor>y\<rfloor> + 1" by linarith+
  then show ?thesis
    by (auto simp: round_half_even_def Let_def)
qed

lemma round_half_even_between:
  assumes "of_int a \<le> y" "y \<le> of_int b"
  shows "a \<le> round_half_even y \<and> round_half_even y \<le> b"
proof -
  from assms(1) have lo: "a \<le> \<lfloor>y\<rfloor>" by (simp add: le_floor_iff)
  have "round_half_even y \<le> b"
  proof (cases "y = of_int b")
    case True
    then show ?thesis by (simp add: round_half_even_def)
  next
    case False
    with assms(2) have "y < of_int b" by simp
    then have "\<lfloor>y\<rfloor> < b" by (simp add: floor_less_iff)
    then show ?thesis by (auto simp: round_half_even_def Let_def)
  qed
  moreover have "\<lfloor>y\<rfloor> \<le> round_half_even y"
    by (auto simp: round_half_even_def Let_def)
  ultimately show ?thesis using lo by linarith
qed

lemma round_6f_near: "\<bar>round_6f x - x\<bar> \<le> 5 / 10 ^ 7"
proof -
  have "\<bar>of_int (round_half_even (x * 10 ^ 6)) - x * 10 ^ 6\<bar> \<le> 1 / 2"
    by (rule round_half_even_near)
  then show ?thesis by (simp add: round_6f_def field_simps abs_if split: if_splits)
qed

lemma round_6f_between:
  assumes "of_int a \<le> x" "x \<le> of_int b"
  shows "of_int a \<le> round_6f x \<and> round_6f x \<le> of_int b"
proof -
  from assms have "of_int (a * 10 ^ 6) \<le> x * 10 ^ 6" "x * 10 ^ 6 \<le> of_int (b * 10 ^ 6)"
    by simp_all
  from round_half_even_between[OF this]
  have "a * 10 ^ 6 \<le> round_half_even (x * 10 ^ 6)" "round_half_even (x * 10 ^ 6) \<le> b * 10 ^ 6"
    by simp_all
  then have "of_int (a * 10 ^ 6) \<le> (of_int (round_half_even (x * 10 ^ 6)) :: real)"
    "(of_int (round_half_even (x * 10 ^ 6)) :: real) \<le> of_int (b * 10 ^ 6)"
    by (simp_all only: of_int_le_iff)
  then show ?thesis by (simp add: round_6f_def field_simps)
qed

lemma split_million: "real (n div 10 ^ 6) + real (n mod 10 ^ 6) / 10 ^ 6 = real n / 10 ^ 6"
proof -
  have "real (n div 1000000 * 1000000 + n mod 1000000) = real n"
    by (simp only: div_mult_mod_eq)
  then have "real (n div 1000000) * 1000000 + real (n mod 1000000) = real n"
    by (simp only: of_nat_add of_nat_mult of_nat_numeral)
  then show ?thesis by (simp add: field_simps)
qed

lemma stage_ratio_format:
  assumes "0 \<le> x"
  shows "stage_ratio (''atempo='' @ format_6f x) = round_6f x"
proof -
  let ?n = "nat (round_half_even (\<bar>x\<bar> * 10 ^ 6))"
  from assms have "of_int 0 \<le> x * 10 ^ 6" by simp
  then have "0 \<le> round_half_even (x * 10 ^ 6)"
    using round_half_even_between[of 0 "x * 10 ^ 6" "\<lceil>x * 10 ^ 6\<rceil>"] by simp
  then have n: "real ?n = of_int (round_half_even (x * 10 ^ 6))" using assms by simp
  have "?n mod 10 ^ 6 < 10 ^ 6" by simp
  then have "read_decimal (str_nat (?n div 10 ^ 6) @ ''.'' @ zfill 6 (str_nat (?n mod 10 ^ 6)))
               = real (?n div 10 ^ 6) + real (?n mod 10 ^ 6) / 10 ^ 6"
    by (rule read_decimal_fixed)
  also have "\<dots> = real ?n / 10 ^ 6" by (rule split_million)
  finally show ?thesis using assms n
    by (simp add: stage_ratio_def format_6f_def Let_def round_6f_def)
qed

lemma stage_ratio_two: "stage_ratio ''atempo=2.0'' = 2"
  by (simp add: stage_ratio_def read_decimal_def py_int_def digit_val_def)

lemma stage_ratio_half: "stage_ratio ''atempo=0.5'' = 1 / 2"
  by (simp add: stage_ratio_def read_decimal_def py_int_def digit_val_def)

subsection \<open>The loops\<close>

lemma fast_loop_halvings:
  "\<exists>k. fast_loop speed fs = (speed / 2 ^ k, fs @ replicate k ''atempo=2.0'')
       \<and> (\<forall>j<k. 2 < speed / 2 ^ j) \<and> speed / 2 ^ k \<le> 2 \<and> (1 < speed \<longrightarrow> 1 < speed / 2 ^ k)"
proof (induction speed fs rule: fast_loop.induct)
  case (1 speed fs)
  show ?case
  proof (cases "2 < speed")
    case False
    then have "fast_loop speed fs = (speed / 2 ^ 0, fs @ replicate 0 ''atempo=2.0'')
       \<and> (\<forall>j<0. 2 < speed / 2 ^ j) \<and> speed / 2 ^ 0 \<le> 2 \<and> (1 < speed \<longrightarrow> 1 < speed / 2 ^ 0)"
      by (simp add: fast_loop.simps[of speed])
    then show ?thesis by (rule exI)
  next
    case True
    from 1[OF True] obtain k where
      e: "fast_loop (speed / 2) (fs @ [''atempo=2.0'']) =
            (speed / 2 / 2 ^ k, (fs @ [''atempo=2.0'']) @ replicate k ''atempo=2.0'')"
      and a: "\<forall>j<k. 2 < speed / 2 / 2 ^ j" and b: "speed / 2 / 2 ^ k \<le> 2"
      and c: "1 < speed / 2 \<longrightarrow> 1 < speed / 2 / 2 ^ k"
      by blast
    have "fast_loop speed fs = (speed / 2 ^ Suc k, fs @ replicate (Suc k) ''atempo=2.0'')"
      using True e by (simp add: fast_loop.simps[of speed fs])
    moreover have "\<forall>j<Suc k. 2 < speed / 2 ^ j"
    proof (intro allI impI)
      fix j assume "j < Suc k"
      show "2 < speed / 2 ^ j"
      proof (cases j)
        case 0 with True show ?thesis by simp
      next
        case (Suc i)
        with \<open>j < Suc k\<close> a have "2 < speed / 2 / 2 ^ i" by simp
        with Suc show ?thesis by simp
      qed
    qed
    moreover from b have "speed / 2 ^ Suc k \<le> 2" by simp
    moreover from c True have "1 < speed \<longrightarrow> 1 < speed / 2 ^ Suc k" by simp
    ultimately show ?thesis by blast
  qed
qed

lemma slow_loop_skip: "1 / 2 \<le> speed \<Longrightarrow> slow_loop speed fs = Some (speed, fs)"
  by (subst slow_loop.simps) simp

text \<open>
  The second loop returns only for a positive speed.  For a speed factor that is zero or
  negative the chain is never built: the function does not return.
\<close>

lemma slow_loop_positive:
  assumes "slow_loop speed fs = Some y"
  shows "0 < speed"
proof (rule slow_loop.raw_induct[where P = "\<lambda>s f y. 0 < s" and speed = speed
      and atempo_filters = fs and y = y])
  fix loop :: "real \<Rightarrow> string list \<Rightarrow> (real \<times> string list) option"
    and s :: real and f :: "string list" and z :: "real \<times> string list"
  assume ih: "\<And>a b c. loop a b = Some c \<Longrightarrow> 0 < a"
    and step: "(if s < 1 / 2 then loop (s / (1 / 2)) (f @ [''atempo=0.5'']) else Some (s, f)) = Some z"
  show "0 < s"
  proof (cases "s < 1 / 2")
    case True
    with step have "loop (s / (1 / 2)) (f @ [''atempo=0.5'']) = Some z" by simp
    from ih[OF this] show ?thesis by simp
  next
    case False
    then show ?thesis by simp
  qed
next
  show "slow_loop speed fs = Some y" by (rule assms)
qed

lemma atempo_chain_diverges: "speed \<le> 0 \<Longrightarrow> atempo_chain speed = None"
proof -
  assume le: "speed \<le> 0"
  then have f: "fast_loop speed [] = (speed, [])" by (simp add: fast_loop.simps)
  have "slow_loop speed [] = None"
  proof (cases "slow_loop speed []")
    case None then show ?thesis .
  next
    case (Some y)
    from slow_loop_positive[OF this] le show ?thesis by simp
  qed
  with f show ?thesis by (simp add: atempo_chain_def)
qed

subsection \<open>The decomposition\<close>

lemma atempo_chain_fast:
  assumes "1 < speed"
  shows "\<exists>k. atempo_chain speed =
           Some (replicate k ''atempo=2.0'' @ [''atempo='' @ format_6f (speed / 2 ^ k)])
       \<and> (\<forall>j<k. 2 < speed / 2 ^ j) \<and> 1 < speed / 2 ^ k \<and> speed / 2 ^ k \<le> 2"
proof -
  from fast_loop_halvings[of speed "[]"] assms obtain k where
    e: "fast_loop speed [] = (speed / 2 ^ k, replicate k ''atempo=2.0'')"
    and a: "\<forall>j<k. 2 < speed / 2 ^ j" and b: "speed / 2 ^ k \<le> 2" and c: "1 < speed / 2 ^ k"
    by auto
  from c have "1 / 2 \<le> speed / 2 ^ k" by linarith
  then have "slow_loop (speed / 2 ^ k) (replicate k ''atempo=2.0'')
                 = Some (speed / 2 ^ k, replicate k ''atempo=2.0'')"
    by (rule slow_loop_skip)
  with e have "atempo_chain speed =
           Some (replicate k ''atempo=2.0'' @ [''atempo='' @ format_6f (speed / 2 ^ k)])"
    by (simp add: atempo_chain_def)
  with a b c show ?thesis by blast
qed

lemma atempo_chain_example:
  "atempo_chain 5.3 = Some [''atempo=2.0'', ''atempo=2.0'', ''atempo=1.325000'']"
proof -
  have "fast_loop 5.3 [] = (1.325, [''atempo=2.0'', ''atempo=2.0''])"
    by (simp add: fast_loop.simps)
  moreover have "slow_loop 1.325 [''atempo=2.0'', ''atempo=2.0'']
                   = Some (1.325, [''atempo=2.0'', ''atempo=2.0''])"
    by (intro slow_loop_skip) simp
  moreover have "format_6f 1.325 = ''1.325000''"
    by (simp add: format_6f_def round_half_even_def Let_def str_nat.simps digit_char_def zfill_def)
  ultimately show ?thesis by (simp add: atempo_chain_def)
qed

text \<open>
  Claim C2, as the program has it.  For a speed factor above \<open>1\<close> the chain consists of
  \<open>k\<close> stages \<^verbatim>\<open>atempo=2.0\<close>, where \<open>k\<close> counts the halvings made while the
  remainder exceeds \<open>2\<close>, no stage \<^verbatim>\<open>atempo=0.5\<close>, and one final stage that prints the
  remainder \<open>speed / 2\<^sup>k\<close> with six decimal places.  Every stage denotes a ratio
  between \<open>1/2\<close> and \<open>2\<close>.  The final ratio is within \<open>5 \<cdot> 10\<^sup>-\<^sup>7\<close> of the
  remainder, so the product of the ratios is within \<open>2\<^sup>k \<cdot> 5 \<cdot> 10\<^sup>-\<^sup>7\<close> of the speed factor.
  For \<open>5.3\<close> the chain is \<open>2.0, 2.0, 1.325000\<close>, with product \<open>5.3\<close>.
\<close>

theorem atempo_chain_decomposition:
  assumes "1 < speed"
  shows "(\<exists>k chain. atempo_chain speed = Some chain
          \<and> chain = replicate k ''atempo=2.0'' @ [''atempo='' @ format_6f (speed / 2 ^ k)]
          \<and> (\<forall>j<k. 2 < speed / 2 ^ j) \<and> 1 < speed / 2 ^ k \<and> speed / 2 ^ k \<le> 2
          \<and> map stage_ratio chain = replicate k 2 @ [round_6f (speed / 2 ^ k)]
          \<and> (\<forall>q \<in> set (map stage_ratio chain). 1 / 2 \<le> q \<and> q \<le> 2)
          \<and> \<bar>round_6f (speed / 2 ^ k) - speed / 2 ^ k\<bar> \<le> 5 / 10 ^ 7
          \<and> \<bar>prod_list (map stage_ratio chain) - speed\<bar> \<le> 2 ^ k * (5 / 10 ^ 7))
       \<and> atempo_chain 5.3 = Some [''atempo=2.0'', ''atempo=2.0'', ''atempo=1.325000'']
       \<and> map stage_ratio [''atempo=2.0'', ''atempo=2.0'', ''atempo=1.325000''] = [2, 2, 1.325]
       \<and> prod_list [2, 2, 1.325] = (5.3 :: real)"
proof -
  from atempo_chain_fast[OF assms] obtain k where
    e: "atempo_chain speed =
           Some (replicate k ''atempo=2.0'' @ [''atempo='' @ format_6f (speed / 2 ^ k)])"
    and a: "\<forall>j<k. 2 < speed / 2 ^ j" and c: "1 < speed / 2 ^ k" and b: "speed / 2 ^ k \<le> 2"
    by blast
  let ?r = "speed / 2 ^ k"
  let ?chain = "replicate k ''atempo=2.0'' @ [''atempo='' @ format_6f ?r]"
  from c have "0 \<le> ?r" by linarith
  from stage_ratio_format[OF this]
  have m: "map stage_ratio ?chain = replicate k 2 @ [round_6f ?r]"
    by (simp add: stage_ratio_two)
  from b c have "of_int 1 \<le> ?r" "?r \<le> of_int 2" by simp_all
  from round_6f_between[OF this] have q: "1 \<le> round_6f ?r" "round_6f ?r \<le> 2" by simp_all
  then have range: "\<forall>q \<in> set (map stage_ratio ?chain). 1 / 2 \<le> q \<and> q \<le> 2"
    unfolding m by auto
  have near: "\<bar>round_6f ?r - ?r\<bar> \<le> 5 / 10 ^ 7" by (rule round_6f_near)
  have "prod_list (map stage_ratio ?chain) - speed = 2 ^ k * (round_6f ?r - ?r)"
    unfolding m by (simp add: prod_list_replicate field_simps)
  then have "\<bar>prod_list (map stage_ratio ?chain) - speed\<bar> = 2 ^ k * \<bar>round_6f ?r - ?r\<bar>"
    by (simp add: abs_mult)
  with near have prod: "\<bar>prod_list (map stage_ratio ?chain) - speed\<bar> \<le> 2 ^ k * (5 / 10 ^ 7)"
    by simp
  have ex: "map stage_ratio [''atempo=2.0'', ''atempo=2.0'', ''atempo=1.325000''] = [2, 2, 1.325]"
    by (simp add: stage_ratio_def read_decimal_def py_int_def digit_val_def)
  have "\<exists>k chain. atempo_chain speed = Some chain
          \<and> chain = replicate k ''atempo=2.0'' @ [''atempo='' @ format_6f (speed / 2 ^ k)]
          \<and> (\<forall>j<k. 2 < speed / 2 ^ j) \<and> 1 < speed / 2 ^ k \<and> speed / 2 ^ k \<le> 2
          \<and> map stage_ratio chain = replicate k 2 @ [round_6f (speed / 2 ^ k)]
          \<and> (\<forall>q \<in> set (map stage_ratio chain). 1 / 2 \<le> q \<and> q \<le> 2)
          \<and> \<bar>round_6f (speed / 2 ^ k) - speed / 2 ^ k\<bar> \<le> 5 / 10 ^ 7
          \<and> \<bar>prod_list (map stage_ratio chain) - speed\<bar> \<le> 2 ^ k * (5 / 10 ^ 7)"
    using e a c b m range near prod by blast
  then show ?thesis using atempo_chain_example ex by simp
qed

theorem atempo_chain_decomposition_witness:
  "(1::real) < 3
   \<and> atempo_chain 3 = Some [''atempo=2.0'', ''atempo=1.500000'']
   \<and> (\<exists>k. atempo_chain 3 = Some (replicate k ''atempo=2.0'' @ [''atempo='' @ format_6f (3 / 2 ^ k)])
          \<and> \<bar>prod_list (map stage_ratio (replicate k ''atempo=2.0'' @ [''atempo='' @ format_6f (3 / 2 ^ k)])) - 3\<bar>
               \<le> 2 ^ k * (5 / 10 ^ 7))"
proof -
  have h: "(1::real) < 3" by simp
  have "fast_loop 3 [] = (3 / 2, [''atempo=2.0''])"
    by (simp add: fast_loop.simps)
  moreover have "slow_loop (3 / 2) [''atempo=2.0''] = Some (3 / 2, [''atempo=2.0''])"
    by (intro slow_loop_skip) simp
  moreover have "format_6f (3 / 2) = ''1.500000''"
    by (simp add: format_6f_def round_half_even_def Let_def str_nat.simps digit_char_def zfill_def)
  ultimately have "atempo_chain 3 = Some [''atempo=2.0'', ''atempo=1.500000'']"
    by (simp add: atempo_chain_def)
  moreover from atempo_chain_decomposition[OF h]
  have "\<exists>k. atempo_chain 3 = Some (replicate k ''atempo=2.0'' @ [''atempo='' @ format_6f (3 / 2 ^ k)])
          \<and> \<bar>prod_list (map stage_ratio (replicate k ''atempo=2.0'' @ [''atempo='' @ format_6f (3 / 2 ^ k)])) - 3\<bar>
               \<le> 2 ^ k * (5 / 10 ^ 7)"
    by blast
  ultimately show ?thesis using h by blast
qed

text \<open>
  The claim as stated asks for a final stage equal to the remainder and a product within
  \<open>10\<^sup>-\<^sup>6\<close> of the speed factor.  For the speed factor \<open>8.000003\<close> the remainder is
  \<open>1.000000375\<close>, the final stage is \<^verbatim>\<open>atempo=1.000000\<close>, and the product \<open>8\<close> of the
  ratios is \<open>3 \<cdot> 10\<^sup>-\<^sup>6\<close> away.
\<close>

theorem atempo_chain_product_off:
  "atempo_chain 8.000003 = Some [''atempo=2.0'', ''atempo=2.0'', ''atempo=2.0'', ''atempo=1.000000'']
   \<and> map stage_ratio [''atempo=2.0'', ''atempo=2.0'', ''atempo=2.0'', ''atempo=1.000000''] = [2, 2, 2, 1]
   \<and> (1::real) \<noteq> 8.000003 / 2 ^ 3
   \<and> \<not> \<bar>prod_list [2, 2, 2, 1] - (8.000003 :: real)\<bar> \<le> 1 / 10 ^ 6"
proof -
  have "fast_loop 8.000003 [] = (1.000000375, [''atempo=2.0'', ''atempo=2.0'', ''atempo=2.0''])"
    by (simp add: fast_loop.simps)
  moreover have "slow_loop 1.000000375 [''atempo=2.0'', ''atempo=2.0'', ''atempo=2.0'']
                   = Some (1.000000375, [''atempo=2.0'', ''atempo=2.0'', ''atempo=2.0''])"
    by (intro slow_loop_skip) simp
  moreover have "zfill 6 ''0'' = ''000000''"
    by (simp add: zfill_def eval_nat_numeral)
  then have "format_6f 1.000000375 = ''1.000000''"
    by (simp add: format_6f_def round_half_even_def Let_def str_nat.simps digit_char_def)
  ultimately have "atempo_chain 8.000003
      = Some [''atempo=2.0'', ''atempo=2.0'', ''atempo=2.0'', ''atempo=1.000000'']"
    by (simp add: atempo_chain_def)
  moreover have "map stage_ratio [''atempo=2.0'', ''atempo=2.0'', ''atempo=2.0'', ''atempo=1.000000'']
      = [2, 2, 2, 1]"
    by (simp add: stage_ratio_def read_decimal_def py_int_def digit_val_def)
  ultimately show ?thesis by simp
qed

section \<open>Properties of the time line\<close>

subsection \<open>The walk\<close>

lemma timeline_walk_snoc:
  "timeline_walk temp_dir (xs @ [x]) = timeline_step temp_dir (timeline_walk temp_dir xs) (length xs, x)"
  by (simp add: timeline_walk_def enumerate_append_eq)

lemma gap_at_snoc_old: "i < length xs \<Longrightarrow> gap_at (xs @ [x]) i = gap_at xs i"
  by (simp add: gap_at_def time_before_def nth_append less_imp_diff_less)

lemma gap_at_snoc_new:
  "gap_at (xs @ [x]) (length xs) =
     binary64 (binary64 (start_time (subtitle x))
               - binary64 (if xs = [] then 0 else end_time (subtitle (last xs))))"
  by (cases "xs = []") (simp_all add: gap_at_def time_before_def nth_append last_conv_nth)

lemma silences_at_snoc_old: "i < length xs \<Longrightarrow> silences_at t (xs @ [x]) i = silences_at t xs i"
  by (simp add: silences_at_def gap_at_snoc_old)

lemma emitted_at_snoc_old: "i < length xs \<Longrightarrow> emitted_at t (xs @ [x]) i = emitted_at t xs i"
  by (simp add: emitted_at_def silences_at_snoc_old nth_append)

lemma timeline_walk_char:
  "segment_files (timeline_walk t ms) = concat (map (emitted_at t ms) [0..<length ms])
   \<and> silence_jobs (timeline_walk t ms) = concat (map (silences_at t ms) [0..<length ms])
   \<and> current_time (timeline_walk t ms) = (if ms = [] then 0 else end_time (subtitle (last ms)))"
proof (induction ms rule: rev_induct)
  case Nil
  show ?case by (simp add: timeline_walk_def)
next
  case (snoc x xs)
  let ?st = "timeline_walk t xs"
  have old1: "map (emitted_at t (xs @ [x])) [0..<length xs] = map (emitted_at t xs) [0..<length xs]"
    by (rule map_cong) (simp_all add: emitted_at_snoc_old)
  have old2: "map (silences_at t (xs @ [x])) [0..<length xs] = map (silences_at t xs) [0..<length xs]"
    by (rule map_cong) (simp_all add: silences_at_snoc_old)
  from snoc have ct: "current_time ?st = (if xs = [] then 0 else end_time (subtitle (last xs)))"
    by simp
  have gap: "gap_at (xs @ [x]) (length xs)
               = binary64 (binary64 (start_time (subtitle x)) - binary64 (current_time ?st))"
    unfolding ct by (rule gap_at_snoc_new)
  have new2: "silence_jobs (timeline_step t ?st (length xs, x))
                = silence_jobs ?st @ silences_at t (xs @ [x]) (length xs)"
    by (cases "processed_path x")
       (simp_all add: timeline_step_def Let_def silences_at_def gap)
  have new1: "segment_files (timeline_step t ?st (length xs, x))
                = segment_files ?st @ emitted_at t (xs @ [x]) (length xs)"
    by (cases "processed_path x")
       (simp_all add: timeline_step_def Let_def emitted_at_def silences_at_def gap clip_of_def)
  have new3: "current_time (timeline_step t ?st (length xs, x)) = end_time (subtitle x)"
    by (simp add: timeline_step_def Let_def split: option.splits)
  from snoc show ?case
    by (simp add: timeline_walk_snoc new1 new2 new3 old1 old2)
qed

lemma emitted_processed:
  assumes "\<forall>m \<in> set ms. processed m"
  shows "map (emitted_at t ms) [0..<length ms] = map (segments_at t ms) [0..<length ms]"
proof (rule map_cong)
  fix i assume "i \<in> set [0..<length ms]"
  then have "ms ! i \<in> set ms" by simp
  with assms have "processed (ms ! i)" by blast
  then have "clip_of (ms ! i) = [processed_clip (ms ! i)]"
    by (cases "processed_path (ms ! i)") (simp_all add: processed_def clip_of_def processed_clip_def)
  then show "emitted_at t ms i = segments_at t ms i"
    by (simp add: emitted_at_def segments_at_def)
qed simp

subsection \<open>The manifest\<close>

lemma concat_list_acc:
  "foldl write_segment f segs = f @ concat (map (\<lambda>p. manifest_line p @ [nl]) segs)"
  by (induction segs arbitrary: f)
     (simp_all add: write_segment_def manifest_line_def str_replace_def escape_char_def[abs_def])

lemma split_lines_line: "nl \<notin> set l \<Longrightarrow> split_lines (l @ nl # rest) = l # split_lines rest"
  by (induction l) auto

lemma manifest_line_no_nl: "nl \<notin> set p \<Longrightarrow> nl \<notin> set (manifest_line p)"
  by (auto simp: manifest_line_def escape_char_def nl_def quote_def backslash_def split: if_splits)

lemma split_lines_manifest:
  "\<forall>p \<in> set segs. nl \<notin> set p \<Longrightarrow>
     split_lines (concat (map (\<lambda>p. manifest_line p @ [nl]) segs)) = map manifest_line segs"
  by (induction segs) (simp_all add: split_lines_line manifest_line_no_nl)

lemma replicate_numeral: "replicate (numeral k) x = x # replicate (pred_numeral k) x"
  by (simp add: numeral_eq_Suc)

lemma silence_name_1: "silence_name (Suc 0) = ''silence_0001_before.wav''"
  by (simp add: silence_name_def str_nat.simps digit_char_def zfill_def replicate_numeral)

lemma silence_name_2: "silence_name (Suc (Suc 0)) = ''silence_0002_before.wav''"
  by (simp add: silence_name_def str_nat.simps digit_char_def zfill_def replicate_numeral)

lemma binary64_values:
  "binary64 0 = 0" "binary64 (1 / 2) = 1 / 2" "binary64 1 = 1" "binary64 (3 / 2) = 3 / 2"
  "binary64 2 = 2" "binary64 3 = 3" "binary64 5 = 5" "binary64 6 = 6"
  "binary64 (1 / 100) = 5764607523034235 / 576460752303423488"
  "binary64 (101 / 100) = 4548635623644201 / 4503599627370496"
  "binary64 (45035996273705 / 4503599627370496) = 45035996273705 / 4503599627370496"
  by (simp_all add: binary64_def float_exponent.simps pow2_def round_half_even_def Let_def)

lemma create_timeline_char:
  "segments (create_timeline matches out tmp ffmpeg)
     = concat (map (emitted_at tmp (sort_matches matches)) [0..<length matches])
   \<and> silences (create_timeline matches out tmp ffmpeg)
     = concat (map (silences_at tmp (sort_matches matches)) [0..<length matches])
   \<and> manifest (create_timeline matches out tmp ffmpeg)
     = concat_list (segments (create_timeline matches out tmp ffmpeg))"
  using timeline_walk_char[of tmp "sort_matches matches"]
  by (simp add: create_timeline_def Let_def sort_matches_def)

lemma create_timeline_example:
  "segments (create_timeline
      [fitting_clip 1 0 1.5 ''c1.wav'', fitting_clip 2 2 3 ''c2.wav'', fitting_clip 3 5 6 ''c3.wav'']
      ''out.wav'' ''tmp'' ''ffmpeg'')
     = [''c1.wav'', ''tmp/silence_0001_before.wav'', ''c2.wav'', ''tmp/silence_0002_before.wav'', ''c3.wav'']
   \<and> silences (create_timeline
      [fitting_clip 1 0 1.5 ''c1.wav'', fitting_clip 2 2 3 ''c2.wav'', fitting_clip 3 5 6 ''c3.wav'']
      ''out.wav'' ''tmp'' ''ffmpeg'')
     = [(0.5, ''tmp/silence_0001_before.wav''), (2, ''tmp/silence_0002_before.wav'')]"
  by (simp add: create_timeline_def Let_def sort_matches_def fitting_clip_def timeline_walk_def
        timeline_step_def path_join_def silence_name_1 silence_name_2 binary64_values)

text \<open>
  Claim C1.  The matches are sorted by the start time of their cue, a float, ascending,
  equal start times keeping their order.  The walk over the sorted list starts at time \<open>0\<close>;
  the match at position \<open>i\<close> contributes a silence of the length of the gap between
  the time before it and its start exactly when that gap exceeds \<open>0.01\<close>, and then
  its processed clip.  The time before a match is the end of the previous cue, whatever
  the length of the previous clip.  The matches are those that the function is given by
  its caller: every one of them is processed.  For cues from \<open>0\<close> to \<open>1.5\<close>, \<open>2\<close>
  to \<open>3\<close> and \<open>5\<close> to \<open>6\<close> the segments are the first clip, a silence of
  \<open>0.5\<close>, the second clip, a silence of \<open>2\<close> and the third clip.
\<close>

theorem create_timeline_segments:
  assumes "\<forall>m \<in> set matches. processed m"
  shows "sorted (map (\<lambda>m. binary64 (start_time (subtitle m))) (sort_matches matches))
   \<and> mset (sort_matches matches) = mset matches
   \<and> (\<forall>k. filter (\<lambda>m. binary64 (start_time (subtitle m)) = k) (sort_matches matches)
            = filter (\<lambda>m. binary64 (start_time (subtitle m)) = k) matches)
   \<and> segments (create_timeline matches out tmp ffmpeg)
       = concat (map (segments_at tmp (sort_matches matches)) [0..<length matches])
   \<and> silences (create_timeline matches out tmp ffmpeg)
       = concat (map (silences_at tmp (sort_matches matches)) [0..<length matches])
   \<and> segments (create_timeline
        [fitting_clip 1 0 1.5 ''c1.wav'', fitting_clip 2 2 3 ''c2.wav'', fitting_clip 3 5 6 ''c3.wav'']
        ''out.wav'' ''tmp'' ''ffmpeg'')
       = [''c1.wav'', ''tmp/silence_0001_before.wav'', ''c2.wav'', ''tmp/silence_0002_before.wav'',
          ''c3.wav'']
   \<and> silences (create_timeline
        [fitting_clip 1 0 1.5 ''c1.wav'', fitting_clip 2 2 3 ''c2.wav'', fitting_clip 3 5 6 ''c3.wav'']
        ''out.wav'' ''tmp'' ''ffmpeg'')
       = [(0.5, ''tmp/silence_0001_before.wav''), (2, ''tmp/silence_0002_before.wav'')]"
proof -
  from assms have "\<forall>m \<in> set (sort_matches matches). processed m"
    by (simp add: sort_matches_def)
  from emitted_processed[OF this, of tmp]
  have e: "map (emitted_at tmp (sort_matches matches)) [0..<length matches]
          = map (segments_at tmp (sort_matches matches)) [0..<length matches]"
    by (simp add: sort_matches_def)
  have "segments (create_timeline matches out tmp ffmpeg)
       = concat (map (segments_at tmp (sort_matches matches)) [0..<length matches])"
    using create_timeline_char[of matches out tmp ffmpeg] by (simp only: e)
  with create_timeline_char[of matches out tmp ffmpeg] create_timeline_example
  show ?thesis
    by (simp add: sort_matches_def sort_key_stable)
qed

text \<open>
  An instance at the threshold: the second cue starts at \<open>1.01\<close> and the first one
  ends at \<open>1\<close>; the difference of the two floats exceeds the float \<open>0.01\<close>, and a
  silence is inserted.
\<close>

theorem create_timeline_segments_witness:
  "processed (fitting_clip 2 1.01 3 ''c2.wav'')
   \<and> processed (fitting_clip 1 0 1 ''c1.wav'')
   \<and> segments (create_timeline
        [fitting_clip 2 1.01 3 ''c2.wav'', fitting_clip 1 0 1 ''c1.wav'']
        ''out.wav'' ''tmp'' ''ffmpeg'')
     = concat (map (segments_at ''tmp'' (sort_matches
        [fitting_clip 2 1.01 3 ''c2.wav'', fitting_clip 1 0 1 ''c1.wav'']))
        [0..<length [fitting_clip 2 1.01 3 ''c2.wav'',
                     fitting_clip 1 0 1 ''c1.wav'']])
   \<and> sort_matches [fitting_clip 2 1.01 3 ''c2.wav'', fitting_clip 1 0 1 ''c1.wav'']
     = [fitting_clip 1 0 1 ''c1.wav'', fitting_clip 2 1.01 3 ''c2.wav'']
   \<and> concat (map (segments_at ''tmp''
        [fitting_clip 1 0 1 ''c1.wav'', fitting_clip 2 1.01 3 ''c2.wav''])
        [0..<Suc (Suc 0)]) = [''c1.wav'', ''tmp/silence_0001_before.wav'', ''c2.wav'']
   \<and> silences_at ''tmp''
        [fitting_clip 1 0 1 ''c1.wav'', fitting_clip 2 1.01 3 ''c2.wav''] (Suc 0)
       = [(45035996273705 / 2 ^ 52, ''tmp/silence_0001_before.wav'')]"
proof -
  let ?c2 = "fitting_clip 2 1.01 3 ''c2.wav''"
  let ?c1 = "fitting_clip 1 0 1 ''c1.wav''"
  have p: "processed ?c2" "processed ?c1"
    by (simp_all add: processed_def fitting_clip_def)
  then have h: "\<forall>m \<in> set [?c2, ?c1]. processed m" by simp
  have a: "segments (create_timeline [?c2, ?c1] ''out.wav'' ''tmp'' ''ffmpeg'')
             = concat (map (segments_at ''tmp'' (sort_matches [?c2, ?c1])) [0..<length [?c2, ?c1]])"
    using create_timeline_segments[OF h, of "''out.wav''" "''tmp''" "''ffmpeg''"]
    by (elim conjE)
  have s: "sort_matches [?c2, ?c1] = [?c1, ?c2]"
    by (simp add: sort_matches_def fitting_clip_def binary64_values)
  have g: "silences_at ''tmp'' [?c1, ?c2] (Suc 0)
             = [(45035996273705 / 2 ^ 52, ''tmp/silence_0001_before.wav'')]"
    by (simp add: silences_at_def gap_at_def time_before_def fitting_clip_def binary64_values
          path_join_def silence_name_1)
  have g0: "silences_at ''tmp'' [?c1, ?c2] 0 = []"
    by (simp add: silences_at_def gap_at_def time_before_def fitting_clip_def binary64_values)
  have pc: "processed_clip ?c1 = ''c1.wav''" "processed_clip ?c2 = ''c2.wav''"
    by (simp_all add: processed_clip_def fitting_clip_def)
  have b: "concat (map (segments_at ''tmp'' [?c1, ?c2]) [0..<Suc (Suc 0)])
             = [''c1.wav'', ''tmp/silence_0001_before.wav'', ''c2.wav'']"
    using g g0 pc by (simp add: segments_at_def)
  from p a s b g show ?thesis by (intro conjI)
qed

text \<open>
  Claim C8.  The manifest holds one line per segment file, in the order of the segment
  files: the word \<open>file\<close>, a space, and the path between single quotes, every single
  quote of the path replaced by the four characters quote, backslash, quote, quote.
  Each line is written with its line feed; when no path contains a line feed, these are
  exactly the lines of the manifest.
\<close>

theorem concat_list_lines:
  "concat_list segs = concat (map (\<lambda>p. manifest_line p @ [nl]) segs)
   \<and> (\<forall>p. manifest_line p = ''file '' @ [quote] @ concat (map escape_char p) @ [quote])
   \<and> (\<forall>c. escape_char c = (if c = quote then [quote, backslash, quote, quote] else [c]))
   \<and> ((\<forall>p \<in> set segs. nl \<notin> set p) \<longrightarrow> split_lines (concat_list segs) = map manifest_line segs)
   \<and> manifest (create_timeline matches out tmp ffmpeg)
       = concat_list (segments (create_timeline matches out tmp ffmpeg))"
  using concat_list_acc[of "[]" segs] split_lines_manifest[of segs]
    create_timeline_char[of matches out tmp ffmpeg]
  by (simp add: concat_list_def manifest_line_def escape_char_def)

theorem concat_list_lines_witness:
  "nl \<notin> set (''it'' @ [quote] @ ''s.wav'') \<and> nl \<notin> set ''b.wav''
   \<and> split_lines (concat_list [''it'' @ [quote] @ ''s.wav'', ''b.wav''])
       = [''file '' @ [quote] @ ''it'' @ [quote, backslash, quote, quote] @ ''s.wav'' @ [quote],
          ''file '' @ [quote] @ ''b.wav'' @ [quote]]
   \<and> concat_list [''it'' @ [quote] @ ''s.wav'', ''b.wav'']
       = ''file '' @ [quote] @ ''it'' @ [quote, backslash, quote, quote] @ ''s.wav'' @ [quote, nl]
         @ ''file '' @ [quote] @ ''b.wav'' @ [quote, nl]"
proof -
  have h: "\<forall>p \<in> set [''it'' @ [quote] @ ''s.wav'', ''b.wav'']. nl \<notin> set p"
    by (simp add: nl_def quote_def)
  from concat_list_lines[of "[''it'' @ [quote] @ ''s.wav'', ''b.wav'']"] h
  show ?thesis by (simp add: manifest_line_def escape_char_def nl_def quote_def backslash_def)
qed

section \<open>Properties of the clip locator\<close>

lemma scan_files_find:
  "scan_files audio_dir rep files
     = map_option (\<lambda>e. path_join audio_dir (fst e)) (find (acceptable rep) files)"
proof (induction files)
  case Nil
  show ?case by simp
next
  case (Cons e files)
  obtain filename regular where e: "e = (filename, regular)" by (cases e)
  obtain name ext where s: "splitext filename = (name, ext)" by (cases "splitext filename")
  from Cons e s show ?case
    by (simp add: acceptable_def Let_def)
qed

lemma scan_files_none:
  "(\<forall>e \<in> set files. \<not> acceptable rep e) \<Longrightarrow> scan_files audio_dir rep files = None"
  by (simp add: scan_files_find find_None_iff)

lemma scan_formats_first:
  assumes "i < length reps"
    and "\<forall>j<i. \<forall>e \<in> set files. \<not> acceptable (reps ! j) e"
    and "find (acceptable (reps ! i)) files = Some e"
  shows "scan_formats audio_dir reps files = Some (path_join audio_dir (fst e))"
  using assms
proof (induction reps arbitrary: i)
  case Nil
  then show ?case by simp
next
  case (Cons r reps)
  show ?case
  proof (cases i)
    case 0
    with Cons.prems(3) show ?thesis by (simp add: scan_files_find)
  next
    case (Suc i')
    with Cons.prems(2) have "\<forall>e \<in> set files. \<not> acceptable r e" by auto
    then have n: "scan_files audio_dir r files = None" by (rule scan_files_none)
    from Suc Cons.prems have "i' < length reps"
      "\<forall>j<i'. \<forall>e \<in> set files. \<not> acceptable (reps ! j) e"
      "find (acceptable (reps ! i')) files = Some e"
      by auto
    from Cons.IH[OF this] n show ?thesis by simp
  qed
qed

lemma index_formats_7: "index_formats 7 = [''0007'', ''007'', ''7'']"
  by (simp add: index_formats_def str_int_def str_nat.simps digit_char_def zfill_def
        replicate_numeral)

lemma splitext_0007: "splitext ''0007.wav'' = (''0007'', ''.wav'')"
  by (simp add: splitext_def basename_of_def Let_def)

lemma splitext_007_extra: "splitext ''007_extra.wav'' = (''007_extra'', ''.wav'')"
  by (simp add: splitext_def basename_of_def Let_def)

lemma wav_listed: "map lower_char ''.wav'' \<in> set audio_extensions"
  by (simp add: lower_char_def audio_extensions_def)

lemma find_audio_example_1:
  "find_audio_for_subtitle cue_7 ''clips''
     \<lparr> listable = True, entries = [(''0007.wav'', True), (''007_extra.wav'', True)], dangling = [] \<rparr>
   = Some ''clips/0007.wav''"
  using wav_listed
  by (simp add: find_audio_for_subtitle_def cue_7_def index_formats_7 splitext_0007
        splitext_007_extra path_join_def)

lemma find_audio_example_2:
  "find_audio_for_subtitle cue_7 ''clips''
     \<lparr> listable = True, entries = [(''007_extra.wav'', True), (''0007.wav'', True)], dangling = [] \<rparr>
   = Some ''clips/0007.wav''"
  using wav_listed
  by (simp add: find_audio_for_subtitle_def cue_7_def index_formats_7 splitext_0007
        splitext_007_extra path_join_def)

text \<open>
  Claim C5.  The representations of the index are tried in the order four digits, three
  digits, no padding.  When the directory can be listed, the result is the first entry
  of the listing that is acceptable for the first representation that has an acceptable
  entry at all; an entry is acceptable when it is a regular file, its extension is on
  the list whatever its case, and its name without the extension is the representation
  or starts with the representation and an underscore.  For the cue with index \<open>7\<close>
  and a directory that lists \<open>0007.wav\<close> and \<open>007_extra.wav\<close>, in either order, the
  result is \<open>0007.wav\<close>.
\<close>

theorem find_audio_priority:
  assumes "listable d"
    and "i < 3"
    and "\<forall>j<i. \<forall>e \<in> set (entries d). \<not> acceptable (index_formats (index sub) ! j) e"
    and "find (acceptable (index_formats (index sub) ! i)) (entries d) = Some e"
  shows "find_audio_for_subtitle sub audio_dir d = Some (path_join audio_dir (fst e))
     \<and> index_formats (index sub)
         = [zfill 4 (str_int (index sub)), zfill 3 (str_int (index sub)), str_int (index sub)]
     \<and> find_audio_for_subtitle cue_7 ''clips''
         \<lparr> listable = True, entries = [(''0007.wav'', True), (''007_extra.wav'', True)], dangling = [] \<rparr>
         = Some ''clips/0007.wav''
     \<and> find_audio_for_subtitle cue_7 ''clips''
         \<lparr> listable = True, entries = [(''007_extra.wav'', True), (''0007.wav'', True)], dangling = [] \<rparr>
         = Some ''clips/0007.wav''"
proof -
  from assms(2) have "i < length (index_formats (index sub))"
    by (simp add: index_formats_def)
  from scan_formats_first[OF this assms(3) assms(4), of audio_dir] assms(1)
  have "find_audio_for_subtitle sub audio_dir d = Some (path_join audio_dir (fst e))"
    by (simp add: find_audio_for_subtitle_def)
  then show ?thesis
    using find_audio_example_1 find_audio_example_2 by (simp add: index_formats_def)
qed

theorem find_audio_priority_witness:
  "listable \<lparr> listable = True, entries = [(''7_take2.mp3'', True), (''007_extra.WAV'', True)], dangling = [] \<rparr>
   \<and> (1::nat) < 3
   \<and> \<not> acceptable ''0007'' (''7_take2.mp3'', True) \<and> \<not> acceptable ''0007'' (''007_extra.WAV'', True)
   \<and> find (acceptable ''007'') [(''7_take2.mp3'', True), (''007_extra.WAV'', True)]
        = Some (''007_extra.WAV'', True)
   \<and> find_audio_for_subtitle cue_7 ''clips''
        \<lparr> listable = True, entries = [(''7_take2.mp3'', True), (''007_extra.WAV'', True)], dangling = [] \<rparr>
        = Some ''clips/007_extra.WAV''"
proof -
  let ?d = "\<lparr> listable = True, entries = [(''7_take2.mp3'', True), (''007_extra.WAV'', True)], dangling = [] \<rparr>"
  have s: "splitext ''7_take2.mp3'' = (''7_take2'', ''.mp3'')"
    "splitext ''007_extra.WAV'' = (''007_extra'', ''.WAV'')"
    by (simp_all add: splitext_def basename_of_def Let_def)
  have l: "map lower_char ''.WAV'' \<in> set audio_extensions"
    "map lower_char ''.mp3'' \<in> set audio_extensions"
    by (simp_all add: lower_char_def audio_extensions_def)
  have f: "index_formats (index cue_7) = [''0007'', ''007'', ''7'']"
    by (simp add: cue_7_def index_formats_7)
  have 1: "listable ?d" by simp
  have 2: "(1::nat) < 3" by simp
  have a: "\<not> acceptable ''0007'' (''7_take2.mp3'', True)" "\<not> acceptable ''0007'' (''007_extra.WAV'', True)"
    by (simp_all add: acceptable_def s)
  then have 3: "\<forall>j<1. \<forall>e \<in> set (entries ?d). \<not> acceptable (index_formats (index cue_7) ! j) e"
    by (simp add: f)
  have b: "find (acceptable ''007'') [(''7_take2.mp3'', True), (''007_extra.WAV'', True)]
             = Some (''007_extra.WAV'', True)"
    using l by (simp add: acceptable_def s)
  then have 4: "find (acceptable (index_formats (index cue_7) ! 1)) (entries ?d)
             = Some (''007_extra.WAV'', True)"
    by (simp add: f)
  from find_audio_priority[OF 1 2 3 4, of "''clips''"]
  have "find_audio_for_subtitle cue_7 ''clips'' ?d = Some ''clips/007_extra.WAV''"
    by (simp add: path_join_def)
  with 1 2 a b show ?thesis by blast
qed


text \<open>
  The fallback tests \<^verbatim>\<open>os.path.exists\<close> where the scan tests \<^verbatim>\<open>os.path.isfile\<close>: an
  entry that is not a regular file, such as a directory called \<open>0007.wav\<close>, is passed
  over by the scan and returned by the fallback.
\<close>

lemma find_audio_fallback_not_regular:
  "find_audio_for_subtitle cue_7 ''clips''
     \<lparr> listable = True, entries = [(''0007.wav'', False)], dangling = [] \<rparr>
   = Some ''clips/0007.wav''"
  by (simp add: find_audio_for_subtitle_def cue_7_def index_formats_7 extensions_list_def
        path_exists_def path_join_def)

section \<open>Properties of the cue-track parser\<close>

subsection \<open>What the block pattern captures\<close>

lemma mem_rx_seq:
  "(x, r') \<in> set (rx_seq p q s) \<longleftrightarrow> (\<exists>a r b. (a, r) \<in> set (p s) \<and> (b, r') \<in> set (q r) \<and> x = a @ b)"
  by (force simp: rx_seq_def)

lemma mem_rx_sep: "(a, r) \<in> set (rx_chr is_sep t) \<Longrightarrow> \<exists>c. a = [c] \<and> is_sep c \<and> t = c # r"
  by (cases t) (auto simp: rx_chr_def split: if_splits)

lemma rx_ts_sound:
  assumes "(g, r) \<in> set (rx_ts t)"
  shows "fraction_stamp g"
proof -
  from assms obtain h r1 x1 where 1: "(h, r1) \<in> set (rx_rep (Suc 0) 2 (rx_chr is_digit) t)"
    and x1: "(x1, r) \<in> set (rx_seq (rx_lit '':'')
        (rx_seq (rx_rep 2 2 (rx_chr is_digit))
          (rx_seq (rx_lit '':'')
            (rx_seq (rx_rep 2 2 (rx_chr is_digit))
              (rx_seq (rx_chr is_sep) (rx_rep 3 3 (rx_chr is_digit)))))) r1)"
    and g: "g = h @ x1"
    unfolding rx_ts_def mem_rx_seq[of g] by auto
  from x1 obtain c1 r2 x2 where 2: "(c1, r2) \<in> set (rx_lit '':'' r1)"
    and x2: "(x2, r) \<in> set (rx_seq (rx_rep 2 2 (rx_chr is_digit))
          (rx_seq (rx_lit '':'')
            (rx_seq (rx_rep 2 2 (rx_chr is_digit))
              (rx_seq (rx_chr is_sep) (rx_rep 3 3 (rx_chr is_digit))))) r2)"
    and g1: "x1 = c1 @ x2"
    unfolding mem_rx_seq[of x1] by auto
  from x2 obtain m r3 x3 where 3: "(m, r3) \<in> set (rx_rep 2 2 (rx_chr is_digit) r2)"
    and x3: "(x3, r) \<in> set (rx_seq (rx_lit '':'')
            (rx_seq (rx_rep 2 2 (rx_chr is_digit))
              (rx_seq (rx_chr is_sep) (rx_rep 3 3 (rx_chr is_digit)))) r3)"
    and g2: "x2 = m @ x3"
    unfolding mem_rx_seq[of x2] by auto
  from x3 obtain c2 r4 x4 where 4: "(c2, r4) \<in> set (rx_lit '':'' r3)"
    and x4: "(x4, r) \<in> set (rx_seq (rx_rep 2 2 (rx_chr is_digit))
              (rx_seq (rx_chr is_sep) (rx_rep 3 3 (rx_chr is_digit))) r4)"
    and g3: "x3 = c2 @ x4"
    unfolding mem_rx_seq[of x3] by auto
  from x4 obtain s r5 x5 where 5: "(s, r5) \<in> set (rx_rep 2 2 (rx_chr is_digit) r4)"
    and x5: "(x5, r) \<in> set (rx_seq (rx_chr is_sep) (rx_rep 3 3 (rx_chr is_digit)) r5)"
    and g4: "x4 = s @ x5"
    unfolding mem_rx_seq[of x4] by auto
  from x5 obtain c3 r6 ms where 6: "(c3, r6) \<in> set (rx_chr is_sep r5)"
    and 7: "(ms, r) \<in> set (rx_rep 3 3 (rx_chr is_digit) r6)"
    and g5: "x5 = c3 @ ms"
    unfolding mem_rx_seq[of x5] by auto
  from mem_rx_sep[OF 6] obtain sep where sep: "c3 = [sep]" "is_sep sep" by auto
  from 2 have c1: "c1 = '':''" by (auto simp: rx_lit1 split: list.splits if_splits)
  from 4 have c2: "c2 = '':''" by (auto simp: rx_lit1 split: list.splits if_splits)
  from mem_rx_rep12[OF 1] mem_rx_rep22[OF 3] mem_rx_rep22[OF 5] mem_rx_rep33[OF 7]
  have "hours_field h" "digits 2 m" "digits 2 s" "digits 3 ms" by simp_all
  moreover have "g = h @ '':'' @ m @ '':'' @ s @ [sep] @ ms"
    using g g1 g2 g3 g4 g5 c1 c2 sep by simp
  ultimately show ?thesis using sep(2) unfolding fraction_stamp_def by blast
qed

lemma re_block_sound:
  assumes "((g1, g2, g3, g4), r) \<in> set (re_block s)"
  shows "fraction_stamp g2 \<and> fraction_stamp g3"
proof -
  from assms obtain r3 r4 r7 r8 where "(g2, r4) \<in> set (rx_ts r3)" "(g3, r8) \<in> set (rx_ts r7)"
    by (auto simp: re_block_def)
  then show ?thesis by (simp add: rx_ts_sound)
qed

lemma re_match_mem: "re_match xs = Some x \<Longrightarrow> x \<in> set xs"
  by (cases xs) (auto simp: re_match_def)

declare re_findall.simps [simp del]

lemma re_findall_sound:
  "g \<in> set (re_findall k s) \<Longrightarrow> \<exists>s' r. (g, r) \<in> set (re_block s')"
proof (induction s arbitrary: k)
  case Nil
  show ?case
  proof (cases "re_match (re_block [])")
    case None
    then have "re_findall k [] = []" by (simp add: re_findall.simps)
    with Nil have False by simp
    then show ?thesis ..
  next
    case (Some a)
    obtain g' r' where a: "a = (g', r')" by (cases a)
    from Some a have "re_match (re_block []) = Some (g', r')" by simp
    then have "(g', r') \<in> set (re_block [])" by (rule re_match_mem)
    moreover from Some a have "re_findall k [] = (if k = 0 then [g'] else [])" by (simp add: re_findall.simps)
    with Nil have "g = g'" by (simp split: if_splits)
    ultimately show ?thesis by blast
  qed
next
  case (Cons c cs)
  show ?case
  proof (cases "k > 0")
    case True
    then have "re_findall k (c # cs) = re_findall (k - 1) cs" by (simp add: re_findall.simps)
    with Cons.prems have "g \<in> set (re_findall (k - 1) cs)" by simp
    then show ?thesis by (rule Cons.IH)
  next
    case False
    show ?thesis
    proof (cases "re_match (re_block (c # cs))")
      case None
      with False have "re_findall k (c # cs) = re_findall 0 cs" by (simp add: re_findall.simps)
      with Cons.prems have "g \<in> set (re_findall 0 cs)" by simp
      then show ?thesis by (rule Cons.IH)
    next
      case (Some a)
      obtain g' r' where a: "a = (g', r')" by (cases a)
      from Some a have "re_match (re_block (c # cs)) = Some (g', r')" by simp
      then have m: "(g', r') \<in> set (re_block (c # cs))" by (rule re_match_mem)
      from False Some a
      have "re_findall k (c # cs) = g' # re_findall (length (c # cs) - length r' - 1) cs"
        by (simp add: re_findall.simps)
      with Cons.prems
      have "g = g' \<or> g \<in> set (re_findall (length (c # cs) - length r' - 1) cs)" by simp
      then show ?thesis
      proof
        assume "g = g'"
        with m show ?thesis by blast
      next
        assume "g \<in> set (re_findall (length (c # cs) - length r' - 1) cs)"
        then show ?thesis by (rule Cons.IH)
      qed
    qed
  qed
qed

lemma re_findall_stamps:
  assumes "(g1, g2, g3, g4) \<in> set (re_findall k s)"
  shows "fraction_stamp g2 \<and> fraction_stamp g3"
proof -
  from re_findall_sound[OF assms] obtain s' r where "((g1, g2, g3, g4), r) \<in> set (re_block s')"
    by blast
  then show ?thesis by (rule re_block_sound)
qed

subsection \<open>Time stamps with a fraction always parse, and by the first pattern\<close>

lemma fraction_stamp_parses:
  assumes "fraction_stamp g"
  shows "(\<exists>v. parse_srt_time g = Inr v) \<and> re_time_frac (str_replace CHR '','' ''.'' (strip g)) \<noteq> []"
proof -
  from assms obtain h m s sep ms where hms: "hours_field h" "digits 2 m" "digits 2 s"
    and sep: "is_sep sep" and ms: "digits 3 ms"
    and g: "g = h @ '':'' @ m @ '':'' @ s @ [sep] @ ms"
    unfolding fraction_stamp_def by blast
  from ms obtain x y z where "ms = [x, y, z]" "is_digit x" "is_digit y" "is_digit z"
    by (auto simp: digits3_iff)
  with sep have ff: "fraction_follows ([sep] @ ms)" by (simp add: fraction_follows_def)
  from parse_srt_time_prefix[OF hms, of "[sep] @ ms"] re_time_frac_normalised[OF hms, of "[sep] @ ms"] ff
  show ?thesis unfolding g by simp
qed

lemma make_subtitle_ok:
  assumes "fraction_stamp g2" "fraction_stamp g3" "length g1 \<le> 4300"
  shows "\<exists>c. make_subtitle (g1, g2, g3, g4) = Inr c \<and> cue_of_block (g1, g2, g3, g4) c"
proof -
  from fraction_stamp_parses[OF assms(1)] obtain a where a: "parse_srt_time g2 = Inr a" by blast
  from fraction_stamp_parses[OF assms(2)] obtain b where b: "parse_srt_time g3 = Inr b" by blast
  from a b assms(3) show ?thesis
    by (simp add: make_subtitle_def int_of_digits_def max_str_digits_def cue_of_block_def)
qed

lemma make_subtitle_long:
  assumes "4300 < length g1"
  shows "make_subtitle (g1, g2, g3, g4) = Inl ValueError"
  using assms by (simp add: make_subtitle_def int_of_digits_def max_str_digits_def)

lemma collect_subtitles_ok:
  assumes "\<forall>g \<in> set ms. \<exists>c. make_subtitle g = Inr c \<and> cue_of_block g c"
  shows "\<exists>subs. collect_subtitles ms acc = Inr (acc @ subs) \<and> list_all2 cue_of_block ms subs"
  using assms
proof (induction ms arbitrary: acc)
  case Nil
  then show ?case by simp
next
  case (Cons g ms)
  from Cons.prems obtain c where c: "make_subtitle g = Inr c" "cue_of_block g c" by auto
  from Cons.prems have "\<forall>g \<in> set ms. \<exists>c. make_subtitle g = Inr c \<and> cue_of_block g c"
    by simp
  from Cons.IH[OF this, of "acc @ [c]"] obtain subs where
    "collect_subtitles ms (acc @ [c]) = Inr ((acc @ [c]) @ subs)" "list_all2 cue_of_block ms subs"
    by blast
  with c have "collect_subtitles (g # ms) acc = Inr (acc @ (c # subs))
      \<and> list_all2 cue_of_block (g # ms) (c # subs)"
    by simp
  then show ?case by blast
qed

subsection \<open>The result of the parser\<close>

lemma parse_srt_file_example:
  "parse_srt_file srt_two_blocks =
     Inr [\<lparr> index = 1, start_time = 1, end_time = 2, duration = 1, text' = ''First'' \<rparr>,
          \<lparr> index = 2, start_time = 3, end_time = 4.5, duration = 1.5, text' = ''Second'' \<rparr>]"
  unfolding srt_two_blocks_def by code_simp

subsection \<open>An index of more than 4300 digits\<close>

lemma rx_star_run:
  assumes "list_all P d" "\<not> P c"
  shows "\<exists>rest. rx_star P (d @ c # t) = (d, c # t) # rest"
  using assms
proof (induction d)
  case Nil
  then show ?case by simp
next
  case (Cons x d)
  then obtain rest where "rx_star P (d @ c # t) = (d, c # t) # rest" by auto
  with Cons.prems show ?case by simp
qed

lemma rx_plus_run:
  assumes "list_all P d" "d \<noteq> []" "\<not> P c"
  shows "\<exists>rest. rx_plus P (d @ c # t) = (d, c # t) # rest"
proof -
  from assms obtain x d' where d: "d = x # d'" "P x" "list_all P d'" by (cases d) auto
  from rx_star_run[OF d(3) assms(3), of t] obtain rest where
    "rx_star P (d' @ c # t) = (d', c # t) # rest" by blast
  with d show ?thesis by (simp add: rx_plus_def rx_seq_def rx_chr_def)
qed

lemma re_block_split:
  "re_block s = concat (map (\<lambda>(g1, r1). block_after_index g1 r1) (rx_plus is_digit s))"
  by (simp add: re_block_def block_after_index_def)

lemma block_after_index_body:
  "block_after_index g1 (block_body @ [nl])
     = [((g1, ''00:00:01,000'', ''00:00:02,000'', ''x''), [nl]),
        ((g1, ''00:00:01,000'', ''00:00:02,000'', ''x'' @ [nl]), [])]"
  unfolding block_body_def by code_simp

lemma re_match_long_index:
  assumes "list_all is_digit d" "d \<noteq> []"
  shows "re_match (re_block (d @ block_body @ [nl]))
           = Some ((d, ''00:00:01,000'', ''00:00:02,000'', ''x''), [nl])"
proof -
  have b: "block_body @ [nl] = nl # tl (block_body @ [nl])" by (simp add: block_body_def)
  have "\<not> is_digit nl" by (simp add: is_digit_def nl_def)
  from rx_plus_run[OF assms this, of "tl (block_body @ [nl])"] b obtain rest where
    "rx_plus is_digit (d @ block_body @ [nl]) = (d, block_body @ [nl]) # rest" by auto
  then show ?thesis
    by (simp add: re_block_split block_after_index_body re_match_def)
qed

lemma re_findall_skip: "re_findall (length a + k) (a @ b) = re_findall k b"
  by (induction a) (simp_all add: re_findall.simps)

lemma re_findall_nl: "re_findall 0 [nl] = []"
  by code_simp

lemma re_findall_long_index:
  assumes "list_all is_digit d" "d \<noteq> []"
  shows "re_findall 0 (d @ block_body @ [nl]) = [(d, ''00:00:01,000'', ''00:00:02,000'', ''x'')]"
proof -
  from assms(2) obtain x d' where d: "d = x # d'" by (cases d) auto
  have "re_findall 0 (x # d' @ block_body @ [nl])
          = (d, ''00:00:01,000'', ''00:00:02,000'', ''x'')
            # re_findall (length (x # d' @ block_body @ [nl]) - length [nl] - 1) (d' @ block_body @ [nl])"
    using re_match_long_index[OF assms] unfolding d by (simp add: re_findall.simps)
  moreover have "re_findall (length (d' @ block_body) + 0) ((d' @ block_body) @ [nl]) = re_findall 0 [nl]"
    by (rule re_findall_skip)
  ultimately show ?thesis unfolding d by (simp add: re_findall_nl)
qed

lemma parse_srt_file_long_index:
  assumes "list_all is_digit d" "4300 < length d"
  shows "parse_srt_file (d @ block_body @ [nl]) = Inl ValueError"
proof -
  from assms(2) have "d \<noteq> []" by auto
  from re_findall_long_index[OF assms(1) this] make_subtitle_long[OF assms(2)]
  show ?thesis by (simp add: parse_srt_file_def)
qed

text \<open>
  Claim C4, as the program has it.  For every text in which no block has an index of
  more than 4300 digits, the parser returns one cue for each block that the pattern
  finds, with the index, the times and the text of that block, sorted by index, blocks
  of equal index keeping their order; in every cue the duration is the end time minus
  the start time.
\<close>

theorem parse_srt_file_sorted:
  assumes "\<forall>g \<in> set (re_findall 0 content). length (fst g) \<le> 4300"
  shows "\<exists>subs. list_all2 cue_of_block (re_findall 0 content) subs
     \<and> parse_srt_file content = Inr (sort_key index subs)
     \<and> sorted (map index (sort_key index subs))
     \<and> mset (sort_key index subs) = mset subs
     \<and> (\<forall>k. filter (\<lambda>c. index c = k) (sort_key index subs) = filter (\<lambda>c. index c = k) subs)
     \<and> (\<forall>c \<in> set (sort_key index subs). duration c = end_time c - start_time c)"
proof -
  have "\<forall>g \<in> set (re_findall 0 content). \<exists>c. make_subtitle g = Inr c \<and> cue_of_block g c"
  proof
    fix g assume g: "g \<in> set (re_findall 0 content)"
    obtain g1 g2 g3 g4 where e: "g = (g1, g2, g3, g4)" by (cases g)
    from g e have "fraction_stamp g2 \<and> fraction_stamp g3"
      using re_findall_stamps[of g1 g2 g3 g4 0 content] by blast
    moreover from assms g e have "length g1 \<le> 4300" by force
    ultimately show "\<exists>c. make_subtitle g = Inr c \<and> cue_of_block g c"
      using make_subtitle_ok[of g2 g3 g1 g4] e by blast
  qed
  from collect_subtitles_ok[OF this, of "[]"] obtain subs where
    s: "collect_subtitles (re_findall 0 content) [] = Inr subs"
    and l: "list_all2 cue_of_block (re_findall 0 content) subs"
    by auto
  from s have p: "parse_srt_file content = Inr (sort_key index subs)"
    by (simp add: parse_srt_file_def)
  have d: "\<forall>c \<in> set subs. duration c = end_time c - start_time c"
  proof
    fix c assume "c \<in> set subs"
    then obtain i where "i < length subs" "c = subs ! i"
      by (auto simp: in_set_conv_nth)
    with l have "cue_of_block (re_findall 0 content ! i) c"
      by (simp add: list_all2_conv_all_nth)
    then show "duration c = end_time c - start_time c"
      by (cases "re_findall 0 content ! i") (simp add: cue_of_block_def)
  qed
  have "sorted (map index (sort_key index subs))" by (rule sorted_sort_key)
  moreover have "mset (sort_key index subs) = mset subs" by simp
  moreover have "\<forall>k. filter (\<lambda>c. index c = k) (sort_key index subs) = filter (\<lambda>c. index c = k) subs"
    by (simp add: sort_key_stable)
  moreover from d have "\<forall>c \<in> set (sort_key index subs). duration c = end_time c - start_time c"
    by simp
  ultimately show ?thesis using l p by blast
qed

theorem parse_srt_file_sorted_witness:
  "re_findall 0 srt_two_blocks
     = [(''2'', ''00:00:03,000'', ''00:00:04,500'', ''Second''),
        (''1'', ''00:00:01,000'', ''00:00:02,000'', ''First'')]
   \<and> length ''2'' \<le> 4300 \<and> length ''1'' \<le> 4300
   \<and> parse_srt_file srt_two_blocks =
     Inr [\<lparr> index = 1, start_time = 1, end_time = 2, duration = 1, text' = ''First'' \<rparr>,
          \<lparr> index = 2, start_time = 3, end_time = 4.5, duration = 1.5, text' = ''Second'' \<rparr>]
   \<and> sorted (map index
        [\<lparr> index = 1, start_time = 1, end_time = 2, duration = 1, text' = ''First'' \<rparr>,
         \<lparr> index = 2, start_time = 3, end_time = 4.5, duration = 1.5, text' = ''Second'' \<rparr>])
   \<and> duration \<lparr> index = 2, start_time = 3, end_time = 4.5, duration = 1.5, text' = ''Second'' \<rparr>
       = end_time \<lparr> index = 2, start_time = 3, end_time = 4.5, duration = 1.5, text' = ''Second'' \<rparr>
         - start_time \<lparr> index = 2, start_time = 3, end_time = 4.5, duration = 1.5, text' = ''Second'' \<rparr>"
proof -
  have f: "re_findall 0 srt_two_blocks
     = [(''2'', ''00:00:03,000'', ''00:00:04,500'', ''Second''),
        (''1'', ''00:00:01,000'', ''00:00:02,000'', ''First'')]"
    unfolding srt_two_blocks_def by code_simp
  have h: "\<forall>g \<in> set (re_findall 0 srt_two_blocks). length (fst g) \<le> 4300"
    unfolding f by simp
  from parse_srt_file_sorted[OF h] obtain subs where
    "parse_srt_file srt_two_blocks = Inr (sort_key index subs)"
    "sorted (map index (sort_key index subs))"
    "\<forall>c \<in> set (sort_key index subs). duration c = end_time c - start_time c"
    by blast
  with parse_srt_file_example f show ?thesis by auto
qed

text \<open>
  The claim as stated has a list returned for every text.  For a block whose index has
  4301 digits the conversion of the index raises, and the parser returns nothing.
\<close>

theorem parse_srt_file_index_too_long:
  "parse_srt_file srt_long_index = Inl ValueError"
proof -
  have "list_all is_digit (replicate 4301 CHR ''1'')"
    by (simp add: list_all_iff is_digit_def)
  moreover have "4300 < length (replicate 4301 CHR ''1'')" by simp
  ultimately show ?thesis
    unfolding srt_long_index_def by (rule parse_srt_file_long_index)
qed

text \<open>
  Claim C9.  Every pair of time stamps that the block pattern captures has a separator
  and exactly three fraction digits, so that \<^verbatim>\<open>parse_srt_time\<close> matches each of them with
  its first pattern and its fallback is never reached from \<^verbatim>\<open>parse_srt_file\<close>.  A block
  whose time stamps have no fraction, or four fraction digits, is not in the result,
  although \<^verbatim>\<open>parse_srt_time\<close> accepts a time stamp without a fraction.
\<close>

theorem block_pattern_needs_fraction:
  "(\<forall>g1 g2 g3 g4. (g1, g2, g3, g4) \<in> set (re_findall 0 content) \<longrightarrow>
       fraction_stamp g2 \<and> fraction_stamp g3
       \<and> re_time_frac (str_replace CHR '','' ''.'' (strip g2)) \<noteq> []
       \<and> re_time_frac (str_replace CHR '','' ''.'' (strip g3)) \<noteq> [])
   \<and> parse_srt_file srt_plain_block = Inr []
   \<and> parse_srt_file srt_long_fraction = Inr []
   \<and> parse_srt_file srt_mixed
       = Inr [\<lparr> index = 2, start_time = 3, end_time = 4, duration = 1, text' = ''World'' \<rparr>]
   \<and> parse_srt_time ''00:00:01'' = Inr 1"
proof -
  have "\<forall>g1 g2 g3 g4. (g1, g2, g3, g4) \<in> set (re_findall 0 content) \<longrightarrow>
       fraction_stamp g2 \<and> fraction_stamp g3
       \<and> re_time_frac (str_replace CHR '','' ''.'' (strip g2)) \<noteq> []
       \<and> re_time_frac (str_replace CHR '','' ''.'' (strip g3)) \<noteq> []"
    using re_findall_stamps[of _ _ _ _ 0 content] fraction_stamp_parses by blast
  moreover have "parse_srt_file srt_plain_block = Inr []"
    unfolding srt_plain_block_def by code_simp
  moreover have "parse_srt_file srt_long_fraction = Inr []"
    unfolding srt_long_fraction_def by code_simp
  moreover have "parse_srt_file srt_mixed
       = Inr [\<lparr> index = 2, start_time = 3, end_time = 4, duration = 1, text' = ''World'' \<rparr>]"
    unfolding srt_mixed_def by code_simp
  moreover have "parse_srt_time ''00:00:01'' = Inr 1"
    by code_simp
  ultimately show ?thesis by blast
qed

theorem block_pattern_needs_fraction_witness:
  "re_findall 0 srt_two_blocks
     = [(''2'', ''00:00:03,000'', ''00:00:04,500'', ''Second''),
        (''1'', ''00:00:01,000'', ''00:00:02,000'', ''First'')]
   \<and> fraction_stamp ''00:00:03,000'' \<and> fraction_stamp ''00:00:04,500''
   \<and> re_time_frac (str_replace CHR '','' ''.'' (strip ''00:00:03,000'')) \<noteq> []"
proof -
  have f: "re_findall 0 srt_two_blocks
     = [(''2'', ''00:00:03,000'', ''00:00:04,500'', ''Second''),
        (''1'', ''00:00:01,000'', ''00:00:02,000'', ''First'')]"
    unfolding srt_two_blocks_def by code_simp
  have "(''2'', ''00:00:03,000'', ''00:00:04,500'', ''Second'')
          \<in> set [(''2'', ''00:00:03,000'', ''00:00:04,500'', ''Second''),
                 (''1'', ''00:00:01,000'', ''00:00:02,000'', ''First'')]"
    by (rule list.set_intros)
  then have "(''2'', ''00:00:03,000'', ''00:00:04,500'', ''Second'') \<in> set (re_findall 0 srt_two_blocks)"
    by (simp only: f)
  with block_pattern_needs_fraction[of srt_two_blocks] f show ?thesis by blast
qed

end
